theory Spec2Isabelle
  imports Main "HOL-Library.Word"
begin

unbundle bit_operations_syntax

section \<open>Data model\<close>

text \<open>
  Modelled from the spec: the header \<^verbatim>\<open>gorilla.h\<close> (the typedefs \<^verbatim>\<open>binary_t\<close>,
  \<^verbatim>\<open>globalbit_t\<close>, \<^verbatim>\<open>localbit_t\<close>, \<^verbatim>\<open>timestamp_t\<close>, \<^verbatim>\<open>union64bits\<close>, the enum
  \<^verbatim>\<open>ChunkResult\<close> and the structs \<^verbatim>\<open>CompressedChunk\<close> and \<^verbatim>\<open>Compressed_Iterator\<close>) is not
  among the sources. The spec's chapter on the on-disk layout gives the widths:
  \<^verbatim>\<open>numSamples\<close>, \<^verbatim>\<open>baseTimestamp\<close>, \<^verbatim>\<open>idx\<close>, \<^verbatim>\<open>prevTimestamp\<close> are u64,
  \<^verbatim>\<open>prevTimestampDelta\<close> is i64, \<^verbatim>\<open>baseValue\<close> and \<^verbatim>\<open>prevValue\<close> are the raw 64 bits of a
  double, \<^verbatim>\<open>prevLeading\<close> and \<^verbatim>\<open>prevTrailing\<close> are u8.

  A \<^verbatim>\<open>union64bits\<close> is read by the code only through its member \<^verbatim>\<open>u\<close> (and \<^verbatim>\<open>i\<close> for the
  delta of deltas), so a double is its 64-bit pattern, and an \<^verbatim>\<open>int64_t\<close> is the 64-bit
  word of its two's complement representation (\<open>sint\<close> reads it).

  The payload \<^verbatim>\<open>u_int64_t *data\<close> is the memory at that pointer, one 64-bit bin per
  index; the bins of the chunk itself are those below \<^verbatim>\<open>8 * size\<close> bits.
\<close>

type_synonym u64 = "64 word"
type_synonym u8 = "8 word"
type_synonym bins = "nat \<Rightarrow> u64"

datatype ChunkResult = CR_OK | CR_ERR | CR_END

record CompressedChunk =
  base_size :: u64
  base_numSamples :: u64
  base_baseTimestamp :: u64
  baseValue :: u64
  data :: bins
  idx :: u64
  prevTimestamp :: u64
  prevTimestampDelta :: u64
  prevValue :: u64
  prevLeading :: u8
  prevTrailing :: u8

text \<open>
  The iterator's pointer \<^verbatim>\<open>iter->chunk\<close> is dereferenced at every call, so the chunk is
  an argument of the reading functions and the record holds the iterator's own fields.
\<close>

record Compressed_Iterator =
  it_idx :: u64
  it_count :: u64
  it_prevTS :: u64
  it_prevDelta :: u64
  it_prevValue :: u64
  it_prevLeading :: u8
  it_prevTrailing :: u8

section \<open>Bit helpers\<close>

text \<open>
  Bit counts and shift amounts (\<^verbatim>\<open>u_int8_t\<close>, \<^verbatim>\<open>localbit_t\<close>, or \<^verbatim>\<open>u_int64_t\<close> holding a
  small number) are naturals; where C narrows or wraps one, the model writes it out.
\<close>

definition BINW :: nat where
  "BINW = 64"

definition DOUBLE_LEADING :: nat where
  "DOUBLE_LEADING = 5"

definition DOUBLE_BLOCK_SIZE :: nat where
  "DOUBLE_BLOCK_SIZE = 6"

definition DOUBLE_BLOCK_ADJUST :: nat where
  "DOUBLE_BLOCK_ADJUST = 1"

definition CMPR_L1 :: nat where "CMPR_L1 = 5"
definition CMPR_L2 :: nat where "CMPR_L2 = 8"
definition CMPR_L3 :: nat where "CMPR_L3 = 11"
definition CMPR_L4 :: nat where "CMPR_L4 = 15"
definition CMPR_L5 :: nat where "CMPR_L5 = 32"

definition BIT :: "nat \<Rightarrow> u64" where
  "BIT b = (if b > 63 then 0 else push_bit b 1)"

definition MASK :: "nat \<Rightarrow> u64" where
  "MASK bits = BIT bits - 1"

definition LSB :: "u64 \<Rightarrow> nat \<Rightarrow> u64" where
  "LSB x bits = x AND MASK bits"

text \<open>
  \<^verbatim>\<open>l - 1\<close> on a \<^verbatim>\<open>u_int8_t\<close> is computed in \<^verbatim>\<open>int\<close> and converted to the \<^verbatim>\<open>u_int64_t\<close>
  parameter of \<^verbatim>\<open>BIT\<close>: for \<^verbatim>\<open>l = 0\<close> it is \<open>2 ^ 64 - 1\<close>.
\<close>

definition minus1 :: "nat \<Rightarrow> nat" where
  "minus1 l = (if l = 0 then 2 ^ 64 - 1 else l - 1)"

definition int2bin :: "u64 \<Rightarrow> nat \<Rightarrow> u64" where
  "int2bin x l = LSB x l"

definition bin2int :: "u64 \<Rightarrow> nat \<Rightarrow> u64" where
  "bin2int bin l = (let pos = (bin AND BIT (minus1 l) = 0) in
     if pos then bin else bin - BIT l)"

definition Bin_MaxVal :: "nat \<Rightarrow> u64" where
  "Bin_MaxVal nbits = BIT (minus1 nbits) - 1"

definition Bin_MinVal :: "nat \<Rightarrow> u64" where
  "Bin_MinVal nbits = - BIT (minus1 nbits)"

definition localbit :: "u64 \<Rightarrow> nat" where
  "localbit b = unat b mod BINW"

definition Bin_InRange :: "u64 \<Rightarrow> nat \<Rightarrow> bool" where
  "Bin_InRange x nbits \<longleftrightarrow> Bin_MinVal nbits \<le>s x \<and> x \<le>s Bin_MaxVal nbits"

definition Bins_bitoff :: "bins \<Rightarrow> u64 \<Rightarrow> bool" where
  "Bins_bitoff bs b \<longleftrightarrow> bs (unat b div BINW) AND BIT (localbit b) = 0"

definition Bins_biton :: "bins \<Rightarrow> u64 \<Rightarrow> bool" where
  "Bins_biton bs b \<longleftrightarrow> \<not> Bins_bitoff bs b"

text \<open>
  \<^verbatim>\<open>appendBits\<close> and \<^verbatim>\<open>readBits\<close> return the cursor they advance beside their result.
\<close>

definition appendBits :: "bins \<Rightarrow> u64 \<Rightarrow> u64 \<Rightarrow> nat \<Rightarrow> bins \<times> u64" where
  "appendBits bs b dat dataLen =
     (let k = unat b div BINW;
          lbit = localbit b;
          available = BINW - lbit
      in (if available \<ge> dataLen
          then bs(k := bs k OR push_bit lbit (LSB dat dataLen))
          else (let bs1 = bs(k := bs k OR push_bit lbit dat)
                in bs1(Suc k := bs1 (Suc k) OR LSB (drop_bit available dat) lbit)),
          b + of_nat dataLen))"

definition readBits :: "bins \<Rightarrow> u64 \<Rightarrow> nat \<Rightarrow> u64 \<times> u64" where
  "readBits bs b dataLen =
     (let k = unat b div BINW;
          lbit = localbit b;
          available = BINW - lbit
      in (if available \<ge> dataLen
          then LSB (drop_bit lbit (bs k)) dataLen
          else (let left = dataLen - available;
                    bin = LSB (drop_bit lbit (bs k)) available
                in bin OR push_bit available (LSB (bs (Suc k)) left)),
          b + of_nat dataLen))"

text \<open>The parameter \<^verbatim>\<open>size\<close> is a \<^verbatim>\<open>u_int8_t\<close>: the argument is cut to 8 bits.\<close>

definition isSpaceAvailable :: "CompressedChunk \<Rightarrow> nat \<Rightarrow> bool" where
  "isSpaceAvailable chunk sz =
     (let available = base_size chunk * 8 - idx chunk
      in of_nat (sz mod 256) \<le> available)"

text \<open>
  The compiler builtins \<^verbatim>\<open>__builtin_clzll\<close> and \<^verbatim>\<open>__builtin_ctzll\<close>: the number of zero bits
  above the highest, and below the lowest, set bit. They are undefined at 0, where the
  code never calls them; the model gives 64 there.
\<close>

primrec clz_below :: "nat \<Rightarrow> u64 \<Rightarrow> nat" where
  "clz_below 0 x = 0"
| "clz_below (Suc n) x = (if bit x n then 0 else Suc (clz_below n x))"

primrec ctz_fuel :: "nat \<Rightarrow> u64 \<Rightarrow> nat" where
  "ctz_fuel 0 x = 0"
| "ctz_fuel (Suc n) x = (if bit x 0 then 0 else Suc (ctz_fuel n (drop_bit 1 x)))"

definition LeadingZeros64 :: "u64 \<Rightarrow> nat" where
  "LeadingZeros64 x = clz_below 64 x"

definition TrailingZeros64 :: "u64 \<Rightarrow> nat" where
  "TrailingZeros64 x = ctz_fuel 64 x"

section \<open>Append\<close>

text \<open>
  A failed \<^verbatim>\<open>assert\<close> aborts the program: the functions that assert return \<open>None\<close> there.
  \<^verbatim>\<open>CHECKSPACE\<close> returns \<^verbatim>\<open>CR_ERR\<close> from the function it stands in.
\<close>

definition appendInteger :: "CompressedChunk \<Rightarrow> u64 \<Rightarrow> (ChunkResult \<times> CompressedChunk) option" where
  "appendInteger chunk timestamp =
     (if \<not> timestamp \<ge> prevTimestamp chunk then None
      else
        (let curDelta = timestamp - prevTimestamp chunk;
             doubleDelta = curDelta - prevTimestampDelta chunk;
             written =
               (if doubleDelta = 0 then
                  (if \<not> isSpaceAvailable chunk (1 + 1) then None
                   else Some (appendBits (data chunk) (idx chunk) 0x00 1))
                else if Bin_InRange doubleDelta CMPR_L1 then
                  (if \<not> isSpaceAvailable chunk (2 + CMPR_L1 + 1) then None
                   else (let (bs1, b1) = appendBits (data chunk) (idx chunk) 0x01 2
                         in Some (appendBits bs1 b1 (int2bin doubleDelta CMPR_L1) CMPR_L1)))
                else if Bin_InRange doubleDelta CMPR_L2 then
                  (if \<not> isSpaceAvailable chunk (3 + CMPR_L2 + 1) then None
                   else (let (bs1, b1) = appendBits (data chunk) (idx chunk) 0x03 3
                         in Some (appendBits bs1 b1 (int2bin doubleDelta CMPR_L2) CMPR_L2)))
                else if Bin_InRange doubleDelta CMPR_L3 then
                  (if \<not> isSpaceAvailable chunk (4 + CMPR_L3 + 1) then None
                   else (let (bs1, b1) = appendBits (data chunk) (idx chunk) 0x07 4
                         in Some (appendBits bs1 b1 (int2bin doubleDelta CMPR_L3) CMPR_L3)))
                else if Bin_InRange doubleDelta CMPR_L4 then
                  (if \<not> isSpaceAvailable chunk (5 + CMPR_L4 + 1) then None
                   else (let (bs1, b1) = appendBits (data chunk) (idx chunk) 0x0f 5
                         in Some (appendBits bs1 b1 (int2bin doubleDelta CMPR_L4) CMPR_L4)))
                else if Bin_InRange doubleDelta CMPR_L5 then
                  (if \<not> isSpaceAvailable chunk (6 + CMPR_L5 + 1) then None
                   else (let (bs1, b1) = appendBits (data chunk) (idx chunk) 0x1f 6
                         in Some (appendBits bs1 b1 (int2bin doubleDelta CMPR_L5) CMPR_L5)))
                else
                  (if \<not> isSpaceAvailable chunk (6 + 64 + 1) then None
                   else (let (bs1, b1) = appendBits (data chunk) (idx chunk) 0x3f 6
                         in Some (appendBits bs1 b1 (doubleDelta) 64))))
         in case written of
              None \<Rightarrow> Some (CR_ERR, chunk)
            | Some (bs, b) \<Rightarrow>
                Some (CR_OK, chunk\<lparr>data := bs, idx := b,
                                   prevTimestampDelta := curDelta,
                                   prevTimestamp := timestamp\<rparr>)))"

text \<open>
  \<^verbatim>\<open>leading\<close> and \<^verbatim>\<open>trailing\<close> are \<^verbatim>\<open>u_int64_t\<close>; \<^verbatim>\<open>blockSize\<close> and \<^verbatim>\<open>prevBlockInfoSize\<close>
  are \<^verbatim>\<open>localbit_t\<close>, 8 bits wide: past the two assertions the subtractions do not wrap.
  On \<^verbatim>\<open>CR_ERR\<close> the flag bit is already in the buffer and \<^verbatim>\<open>chunk->idx\<close> is one further.
\<close>

definition appendFloat :: "CompressedChunk \<Rightarrow> u64 \<Rightarrow> (ChunkResult \<times> CompressedChunk) option" where
  "appendFloat chunk val =
     (let xorWithPrevious = val XOR prevValue chunk
      in if xorWithPrevious = 0 then
           (let (bs, b) = appendBits (data chunk) (idx chunk) 0 1
            in Some (CR_OK, chunk\<lparr>data := bs, idx := b\<rparr>))
         else
           (let (bs0, b0) = appendBits (data chunk) (idx chunk) 1 1;
                chunk0 = chunk\<lparr>data := bs0, idx := b0\<rparr>;
                leading0 = LeadingZeros64 xorWithPrevious;
                trailing = TrailingZeros64 xorWithPrevious;
                leading = (if leading0 > 31 then 31 else leading0);
                prevLeading' = unat (prevLeading chunk);
                prevTrailing' = unat (prevTrailing chunk)
            in if \<not> leading + trailing \<le> BINW then None
               else
                 (let blockSize = (BINW - leading - trailing) mod 256;
                      expectedSize = DOUBLE_LEADING + DOUBLE_BLOCK_SIZE + blockSize
                  in if \<not> prevLeading' + prevTrailing' \<le> BINW then None
                     else
                       (let prevBlockInfoSize = (BINW - prevLeading' - prevTrailing') mod 256
                        in if leading \<ge> unat (prevLeading chunk) \<and>
                              trailing \<ge> unat (prevTrailing chunk) \<and>
                              expectedSize > prevBlockInfoSize
                           then
                             (if \<not> isSpaceAvailable chunk0 (prevBlockInfoSize + 1)
                              then Some (CR_ERR, chunk0)
                              else
                                (let (bs1, b1) = appendBits bs0 b0 0 1;
                                     (bs2, b2) = appendBits bs1 b1
                                        (drop_bit prevTrailing' xorWithPrevious) prevBlockInfoSize
                                 in Some (CR_OK, chunk\<lparr>data := bs2, idx := b2,
                                                          prevValue := val\<rparr>)))
                           else
                             (if \<not> isSpaceAvailable chunk0 (expectedSize + 1)
                              then Some (CR_ERR, chunk0)
                              else
                                (let (bs1, b1) = appendBits bs0 b0 1 1;
                                     (bs2, b2) = appendBits bs1 b1 (of_nat leading) DOUBLE_LEADING;
                                     (bs3, b3) = appendBits bs2 b2
                                        (of_nat blockSize - of_nat DOUBLE_BLOCK_ADJUST) DOUBLE_BLOCK_SIZE;
                                     (bs4, b4) = appendBits bs3 b3
                                        (drop_bit trailing xorWithPrevious) blockSize
                                 in Some (CR_OK, chunk\<lparr>data := bs4, idx := b4,
                                                          prevLeading := of_nat leading,
                                                          prevTrailing := of_nat trailing,
                                                          prevValue := val\<rparr>)))))))"

definition Compressed_Append ::
  "CompressedChunk \<Rightarrow> u64 \<Rightarrow> u64 \<Rightarrow> (ChunkResult \<times> CompressedChunk) option" where
  "Compressed_Append chunk timestamp val =
     (if base_numSamples chunk = 0 then
        Some (CR_OK, chunk\<lparr>baseValue := val, prevValue := val,
                           base_baseTimestamp := timestamp, prevTimestamp := timestamp,
                           prevTimestampDelta := 0,
                           base_numSamples := base_numSamples chunk + 1\<rparr>)
      else
        (let idx0 = idx chunk;
             prevTimestamp0 = prevTimestamp chunk;
             prevTimestampDelta0 = prevTimestampDelta chunk
         in case appendInteger chunk timestamp of
              None \<Rightarrow> None
            | Some (r1, chunk1) \<Rightarrow>
                if r1 \<noteq> CR_OK then
                  Some (CR_END, chunk1\<lparr>idx := idx0, prevTimestamp := prevTimestamp0,
                                        prevTimestampDelta := prevTimestampDelta0\<rparr>)
                else
                  (case appendFloat chunk1 val of
                     None \<Rightarrow> None
                   | Some (r2, chunk2) \<Rightarrow>
                       if r2 \<noteq> CR_OK then
                         Some (CR_END, chunk2\<lparr>idx := idx0, prevTimestamp := prevTimestamp0,
                                               prevTimestampDelta := prevTimestampDelta0\<rparr>)
                       else
                         Some (CR_OK, chunk2\<lparr>base_numSamples := base_numSamples chunk2 + 1\<rparr>))))"

section \<open>Read\<close>

text \<open>
  \<^verbatim>\<open>Bins_bitoff(bins, (*bit)++)\<close> tests the bit at the cursor and moves the cursor on,
  whatever the bit is. \<^verbatim>\<open>prevDelta\<close> is an \<^verbatim>\<open>int64_t\<close>, added modulo \<open>2 ^ 64\<close>.
\<close>

definition readInteger :: "bins \<Rightarrow> Compressed_Iterator \<Rightarrow> u64 \<times> Compressed_Iterator" where
  "readInteger bs iter =
     (let b = it_idx iter;
          (dd, b') =
            (if Bins_bitoff bs b then (0, b + 1)
             else if Bins_bitoff bs (b + 1) then
               (let (r, e) = readBits bs (b + 2) CMPR_L1 in (bin2int r CMPR_L1, e))
             else if Bins_bitoff bs (b + 2) then
               (let (r, e) = readBits bs (b + 3) CMPR_L2 in (bin2int r CMPR_L2, e))
             else if Bins_bitoff bs (b + 3) then
               (let (r, e) = readBits bs (b + 4) CMPR_L3 in (bin2int r CMPR_L3, e))
             else if Bins_bitoff bs (b + 4) then
               (let (r, e) = readBits bs (b + 5) CMPR_L4 in (bin2int r CMPR_L4, e))
             else if Bins_bitoff bs (b + 5) then
               (let (r, e) = readBits bs (b + 6) CMPR_L5 in (bin2int r CMPR_L5, e))
             else readBits bs (b + 6) 64);
          prevDelta' = it_prevDelta iter + dd;
          prevTS' = it_prevTS iter + prevDelta'
      in (prevTS', iter\<lparr>it_idx := b', it_prevDelta := prevDelta', it_prevTS := prevTS'\<rparr>))"

text \<open>
  \<^verbatim>\<open>prevBlockInfo\<close> is a \<^verbatim>\<open>u_int8_t\<close>; \<^verbatim>\<open>leading\<close>, \<^verbatim>\<open>blocksize\<close> and \<^verbatim>\<open>trailing\<close> are
  \<^verbatim>\<open>binary_t\<close>; the \<^verbatim>\<open>dataLen\<close> of \<^verbatim>\<open>readBits\<close> is a \<^verbatim>\<open>u_int8_t\<close>. The result is the value
  and the iterator, whose \<^verbatim>\<open>prevValue\<close> the changed-value path has already set.
\<close>

definition readFloat :: "bins \<Rightarrow> Compressed_Iterator \<Rightarrow> (u64 \<times> Compressed_Iterator) option" where
  "readFloat bs iter =
     (let b = it_idx iter
      in if Bins_bitoff bs b then Some (it_prevValue iter, iter\<lparr>it_idx := b + 1\<rparr>)
         else
           (let usePreviousBlockInfo = Bins_bitoff bs (b + 1);
                pl = unat (it_prevLeading iter);
                pt = unat (it_prevTrailing iter)
            in if usePreviousBlockInfo then
                 (if \<not> pl + pt \<le> BINW then None
                  else
                    (let prevBlockInfo = (BINW - pl - pt) mod 256;
                         (r, e) = readBits bs (b + 2) prevBlockInfo;
                         xorValue = push_bit pt r;
                         rv = xorValue XOR it_prevValue iter
                     in Some (rv, iter\<lparr>it_idx := e, it_prevValue := rv\<rparr>)))
               else
                 (let (leading, e1) = readBits bs (b + 2) DOUBLE_LEADING;
                      (bsz, e2) = readBits bs e1 DOUBLE_BLOCK_SIZE;
                      blocksize = bsz + of_nat DOUBLE_BLOCK_ADJUST
                  in if \<not> leading + blocksize \<le> of_nat BINW then None
                     else
                       (let trailing = of_nat BINW - leading - blocksize;
                            (r, e3) = readBits bs e2 (unat blocksize mod 256);
                            xorValue = push_bit (unat trailing) r;
                            rv = xorValue XOR it_prevValue iter
                        in Some (rv, iter\<lparr>it_idx := e3, it_prevValue := rv,
                                         it_prevLeading := ucast leading,
                                         it_prevTrailing := ucast trailing\<rparr>)))))"

text \<open>
  The out parameters \<^verbatim>\<open>*timestamp\<close> and \<^verbatim>\<open>*value\<close> are the second component: \<open>None\<close> when
  the call returns \<^verbatim>\<open>CR_END\<close> and leaves them alone.
\<close>

definition Compressed_ReadNext ::
  "CompressedChunk \<Rightarrow> Compressed_Iterator \<Rightarrow>
     (ChunkResult \<times> (u64 \<times> u64) option \<times> Compressed_Iterator) option" where
  "Compressed_ReadNext chunk iter =
     (if it_count iter \<ge> base_numSamples chunk then Some (CR_END, None, iter)
      else if it_count iter = 0 then
        Some (CR_OK, Some (base_baseTimestamp chunk, baseValue chunk),
              iter\<lparr>it_count := it_count iter + 1\<rparr>)
      else
        (let (ts, iter1) = readInteger (data chunk) iter;
             iter2 = iter1\<lparr>it_prevTS := ts\<rparr>
         in case readFloat (data chunk) iter2 of
              None \<Rightarrow> None
            | Some (v, iter3) \<Rightarrow>
                Some (CR_OK, Some (ts, v),
                      iter3\<lparr>it_prevValue := v, it_count := it_count iter3 + 1\<rparr>)))"

section \<open>Observing a chunk\<close>

text \<open>
  Global bit \<open>p\<close> of the buffer: bit \<open>p mod 64\<close> of bin \<open>p div 64\<close>, bit 0 the least
  significant one (the layout \<^verbatim>\<open>Bins_bitoff\<close> reads).
\<close>

definition gbit :: "bins \<Rightarrow> nat \<Rightarrow> bool" where
  "gbit bs p = bit (bs (p div 64)) (p mod 64)"

text \<open>
  Modelled from the spec: the constructor of a chunk is not among the sources. The spec
  asks for a chunk of capacity \<open>C\<close> bytes whose buffer is zero-initialized; the claims speak
  of a zero-initialized chunk, so every other field is 0 as well.
\<close>

definition zero_chunk :: "u64 \<Rightarrow> CompressedChunk" where
  "zero_chunk C = \<lparr>base_size = C, base_numSamples = 0, base_baseTimestamp = 0, baseValue = 0,
     data = (\<lambda>_. 0), idx = 0, prevTimestamp = 0, prevTimestampDelta = 0, prevValue = 0,
     prevLeading = 0, prevTrailing = 0\<rparr>"

text \<open>
  Modelled from the spec: the constructor of an iterator is not among the sources. The spec
  creates an iterator at sample 0 with its cursor at bit 0 and \<open>count = 0\<close>, its rolling state
  mirroring the encoder's and derived from the chunk's \<^verbatim>\<open>baseTimestamp\<close> and \<^verbatim>\<open>baseValue\<close>:
  the encoder's state after the first sample of a zero-initialized chunk.
\<close>

definition Compressed_NewChunkIterator :: "CompressedChunk \<Rightarrow> Compressed_Iterator" where
  "Compressed_NewChunkIterator chunk =
     \<lparr>it_idx = 0, it_count = 0, it_prevTS = base_baseTimestamp chunk, it_prevDelta = 0,
      it_prevValue = baseValue chunk, it_prevLeading = 0, it_prevTrailing = 0\<rparr>"

text \<open>
  A caller that appends a list of samples and stops at the first call that does not return
  \<^verbatim>\<open>CR_OK\<close>, and a caller that reads \<open>n\<close> samples and stops at the first call that does not
  return \<^verbatim>\<open>CR_OK\<close>.
\<close>

fun append_all :: "CompressedChunk \<Rightarrow> (u64 \<times> u64) list \<Rightarrow> CompressedChunk option" where
  "append_all chunk [] = Some chunk"
| "append_all chunk ((t, v) # rest) =
     (case Compressed_Append chunk t v of
        Some (CR_OK, chunk') \<Rightarrow> append_all chunk' rest
      | _ \<Rightarrow> None)"

fun read_n ::
  "CompressedChunk \<Rightarrow> Compressed_Iterator \<Rightarrow> nat \<Rightarrow> ((u64 \<times> u64) list \<times> Compressed_Iterator) option" where
  "read_n chunk iter 0 = Some ([], iter)"
| "read_n chunk iter (Suc n) =
     (case Compressed_ReadNext chunk iter of
        Some (CR_OK, Some s, iter') \<Rightarrow>
          (case read_n chunk iter' n of
             Some (ss, iter'') \<Rightarrow> Some (s # ss, iter'')
           | None \<Rightarrow> None)
      | _ \<Rightarrow> None)"

section \<open>Well-formed chunks\<close>

text \<open>
  The cursor of a chunk is within its capacity, both computed as the code computes them, in
  64-bit arithmetic. \<^verbatim>\<open>isSpaceAvailable\<close> subtracts the cursor from the capacity, which is
  only meaningful for such a chunk. A buffer is fresh from bit \<open>g\<close> on when every bit there is
  0: \<^verbatim>\<open>appendBits\<close> ORs into the buffer and relies on it.
\<close>

definition idx_in_bounds :: "CompressedChunk \<Rightarrow> bool" where
  "idx_in_bounds chunk \<longleftrightarrow> idx chunk \<le> base_size chunk * 8"

definition zero_from :: "bins \<Rightarrow> nat \<Rightarrow> bool" where
  "zero_from bs g \<longleftrightarrow> (\<forall>p\<ge>g. \<not> gbit bs p)"

text \<open>The \<open>n\<close> bits from bit \<open>g\<close> on are 0; the buffer whose every bin is 0.\<close>

definition zero_range :: "bins \<Rightarrow> nat \<Rightarrow> nat \<Rightarrow> bool" where
  "zero_range bs g n \<longleftrightarrow> list_all (\<lambda>i. \<not> gbit bs (g + i)) [0..<n]"

definition zero_bins :: bins where
  "zero_bins = (\<lambda>_. 0)"

section \<open>The encoders as lists of fields\<close>

text \<open>
  Every path of \<^verbatim>\<open>appendInteger\<close> and \<^verbatim>\<open>appendFloat\<close> is a sequence of \<^verbatim>\<open>appendBits\<close> calls, each
  with a value and a width. \<open>appendFields\<close> runs such a sequence; \<open>stream\<close> is the bits it
  stands for, in the order they are written, the least significant bit of each field first.
  A list of fields fits when every value is below \<open>2 ^ width\<close>.
\<close>

definition bits_of :: "u64 \<Rightarrow> nat \<Rightarrow> bool list" where
  "bits_of d n = map (bit d) [0..<n]"

fun stream :: "(u64 \<times> nat) list \<Rightarrow> bool list" where
  "stream [] = []"
| "stream ((d, n) # fs) = bits_of d n @ stream fs"

fun appendFields :: "bins \<Rightarrow> u64 \<Rightarrow> (u64 \<times> nat) list \<Rightarrow> bins \<times> u64" where
  "appendFields bs b [] = (bs, b)"
| "appendFields bs b ((d, n) # fs) =
     (let (bs', b') = appendBits bs b d n in appendFields bs' b' fs)"

definition fits :: "(u64 \<times> nat) list \<Rightarrow> bool" where
  "fits fs \<longleftrightarrow> (\<forall>(d, n) \<in> set fs. n \<le> 64 \<and> take_bit n d = d)"

text \<open>
  The prefix and the payload \<^verbatim>\<open>appendInteger\<close> writes for a delta of deltas, read off its
  chain of tests: prefix value, prefix length, payload, payload width. The lemma
  \<open>appendInteger_fields\<close> below proves that \<^verbatim>\<open>appendInteger\<close> writes these two fields.
\<close>

definition dd_code :: "u64 \<Rightarrow> u64 \<times> nat \<times> u64 \<times> nat" where
  "dd_code dd =
     (if dd = 0 then (0x00, 1, 0, 0)
      else if Bin_InRange dd CMPR_L1 then (0x01, 2, int2bin dd CMPR_L1, CMPR_L1)
      else if Bin_InRange dd CMPR_L2 then (0x03, 3, int2bin dd CMPR_L2, CMPR_L2)
      else if Bin_InRange dd CMPR_L3 then (0x07, 4, int2bin dd CMPR_L3, CMPR_L3)
      else if Bin_InRange dd CMPR_L4 then (0x0f, 5, int2bin dd CMPR_L4, CMPR_L4)
      else if Bin_InRange dd CMPR_L5 then (0x1f, 6, int2bin dd CMPR_L5, CMPR_L5)
      else (0x3f, 6, dd, 64))"

definition int_fields :: "u64 \<Rightarrow> (u64 \<times> nat) list" where
  "int_fields dd = (let (pre, plen, pay, w) = dd_code dd in [(pre, plen), (pay, w)])"

text \<open>
  The same for \<^verbatim>\<open>appendFloat\<close> and the XOR \<open>x\<close> with the previous value: \<^verbatim>\<open>leading\<close> after its
  clamp to 31, the condition of the reuse branch, and the fields of the three paths that
  return \<^verbatim>\<open>CR_OK\<close>. The lemma \<open>appendFloat_fields\<close> below proves that \<^verbatim>\<open>appendFloat\<close> writes
  these fields.
\<close>

definition xor_leading :: "u64 \<Rightarrow> nat" where
  "xor_leading x = (if LeadingZeros64 x > 31 then 31 else LeadingZeros64 x)"

definition use_prev_window :: "CompressedChunk \<Rightarrow> u64 \<Rightarrow> bool" where
  "use_prev_window chunk x \<longleftrightarrow>
     unat (prevLeading chunk) \<le> xor_leading x \<and> unat (prevTrailing chunk) \<le> TrailingZeros64 x \<and>
     64 - unat (prevLeading chunk) - unat (prevTrailing chunk) < 11 + (64 - xor_leading x - TrailingZeros64 x)"

definition float_fields :: "CompressedChunk \<Rightarrow> u64 \<Rightarrow> (u64 \<times> nat) list" where
  "float_fields chunk x =
     (if x = 0 then [(0, 1)]
      else if use_prev_window chunk x then
        [(1, 1), (0, 1),
         (drop_bit (unat (prevTrailing chunk)) x, 64 - unat (prevLeading chunk) - unat (prevTrailing chunk))]
      else
        [(1, 1), (1, 1), (of_nat (xor_leading x), 5),
         (of_nat (64 - xor_leading x - TrailingZeros64 x) - 1, 6),
         (drop_bit (TrailingZeros64 x) x, 64 - xor_leading x - TrailingZeros64 x)])"

section \<open>The spec's table of prefixes\<close>

text \<open>
  The table of the spec's integer codec, one row per prefix: the prefix bits in the order
  they are written (some 1-bits, then a 0-bit; six 1-bits for the escape), the width of the
  payload, and the signed range. The spec picks the row with the smallest range that
  contains the delta of deltas; the ranges are nested, so it is the first such row.
\<close>

definition spec_dd_table :: "(bool list \<times> nat \<times> int \<times> int) list" where
  "spec_dd_table =
     [([False], 0, 0, 0),
      ([True, False], 5, - 16, 15),
      ([True, True, False], 8, - 128, 127),
      ([True, True, True, False], 11, - 1024, 1023),
      ([True, True, True, True, False], 15, - 16384, 16383),
      ([True, True, True, True, True, False], 32, - (2 ^ 31), 2 ^ 31 - 1),
      ([True, True, True, True, True, True], 64, - (2 ^ 63), 2 ^ 63 - 1)]"

definition spec_dd_bucket :: "int \<Rightarrow> (bool list \<times> nat \<times> int \<times> int) option" where
  "spec_dd_bucket dd = find (\<lambda>(prefix, w, lo, hi). lo \<le> dd \<and> dd \<le> hi) spec_dd_table"

section \<open>Encoder and decoder in step\<close>

text \<open>
  A buffer holds a list of bits at a position. The invariant of a chunk with at least one
  sample that only successful appends have touched: the cursor is within the capacity, the
  buffer is fresh from the cursor on, the stored window has at most 64 bits, and there are
  no more samples than the cursor allows (every sample after the first takes two bits at
  least, so \<open>numSamples\<close> cannot wrap). An iterator is in step with a chunk when its rolling
  state is the encoder's.
\<close>

definition stream_at :: "bins \<Rightarrow> nat \<Rightarrow> bool list \<Rightarrow> bool" where
  "stream_at D g s \<longleftrightarrow> (\<forall>i<length s. gbit D (g + i) = s ! i)"

definition chunk_inv :: "CompressedChunk \<Rightarrow> bool" where
  "chunk_inv c \<longleftrightarrow>
     idx_in_bounds c \<and> zero_from (data c) (unat (idx c)) \<and>
     unat (prevLeading c) + unat (prevTrailing c) \<le> 64 \<and>
     base_numSamples c \<noteq> 0 \<and> unat (base_numSamples c) \<le> unat (idx c) + 1"

definition synced :: "CompressedChunk \<Rightarrow> Compressed_Iterator \<Rightarrow> bool" where
  "synced c it \<longleftrightarrow>
     it_idx it = idx c \<and> it_prevTS it = prevTimestamp c \<and>
     it_prevDelta it = prevTimestampDelta c \<and> it_prevValue it = prevValue c \<and>
     it_prevLeading it = prevLeading c \<and> it_prevTrailing it = prevTrailing c \<and>
     it_count it = base_numSamples c"

section \<open>Example chunks\<close>

text \<open>
  The scenario S2 of the spec: three samples with the value 5.0, whose bit pattern is
  \<open>0x4014000000000000\<close>, on a chunk of 128 bytes, and the chunk they leave. The chunk
  after the first of them, and after \<^verbatim>\<open>appendInteger\<close> for the second. An iterator with
  every field 0.
\<close>

definition S2_samples :: "(u64 \<times> u64) list" where
  "S2_samples = [(1000, 0x4014000000000000), (1010, 0x4014000000000000), (1020, 0x4014000000000000)]"

definition S2_chunk :: CompressedChunk where
  "S2_chunk = (zero_chunk 128)\<lparr>base_numSamples := 3, base_baseTimestamp := 1000,
      baseValue := 0x4014000000000000, data := (\<lambda>_. 0)(0 := 41), idx := 10,
      prevTimestamp := 1020, prevTimestampDelta := 10, prevValue := 0x4014000000000000\<rparr>"

definition one_sample_chunk :: CompressedChunk where
  "one_sample_chunk = (zero_chunk 128)\<lparr>baseValue := 0x4014000000000000, prevValue := 0x4014000000000000,
      base_baseTimestamp := 1000, prevTimestamp := 1000, base_numSamples := 1\<rparr>"

definition one_sample_chunk_ts :: CompressedChunk where
  "one_sample_chunk_ts = one_sample_chunk\<lparr>data := (\<lambda>_. 0)(0 := 41), idx := 7,
      prevTimestampDelta := 10, prevTimestamp := 1010\<rparr>"

definition zero_iterator :: Compressed_Iterator where
  "zero_iterator = \<lparr>it_idx = 0, it_count = 0, it_prevTS = 0, it_prevDelta = 0,
      it_prevValue = 0, it_prevLeading = 0, it_prevTrailing = 0\<rparr>"

text \<open>
  A chunk of 2 bytes after the samples \<open>(0, 0.0)\<close> and \<open>(1, 0.0)\<close>; the same after
  \<^verbatim>\<open>appendInteger\<close> for the timestamp 3; and what the call for \<open>(3, 1.0)\<close> leaves of it: the
  timestamp fits, the value does not.
\<close>

definition two_sample_chunk :: CompressedChunk where
  "two_sample_chunk = (zero_chunk 2)\<lparr>base_numSamples := 2, data := (\<lambda>_. 0)(0 := 5), idx := 8,
      prevTimestamp := 1, prevTimestampDelta := 1\<rparr>"

definition two_sample_chunk_ts :: CompressedChunk where
  "two_sample_chunk_ts = two_sample_chunk\<lparr>data := (\<lambda>_. 0)(0 := 1285), idx := 15,
      prevTimestampDelta := 2, prevTimestamp := 3\<rparr>"

definition two_sample_chunk_END :: CompressedChunk where
  "two_sample_chunk_END = two_sample_chunk\<lparr>data := (\<lambda>_. 0)(0 := 34053)\<rparr>"

text \<open>The chunk that the call for \<open>(2, 0.0)\<close> makes of the last one.\<close>

definition two_sample_chunk_next :: CompressedChunk where
  "two_sample_chunk_next = two_sample_chunk_END\<lparr>base_numSamples := 3, idx := 10, prevTimestamp := 2\<rparr>"

text \<open>
  A chunk of 128 bytes after the sample \<open>(0, 0.0)\<close>, and what \<^verbatim>\<open>appendFloat\<close> makes of it for
  the bit patterns \<open>0x001FFFFFFFFFFFFF\<close> (a new window) and \<open>0x3FF0000000000001\<close> (the window
  \<open>(0, 0)\<close> reused).
\<close>

definition one_zero_sample_chunk :: CompressedChunk where
  "one_zero_sample_chunk = (zero_chunk 128)\<lparr>base_numSamples := 1\<rparr>"

definition new_window_result :: CompressedChunk where
  "new_window_result = one_zero_sample_chunk\<lparr>data := (\<lambda>_. 0)(0 := 0xFFFFFFFFFFFFFA2F, 1 := 3),
      idx := 66, prevLeading := 11, prevTrailing := 0, prevValue := 0x001FFFFFFFFFFFFF\<rparr>"

definition reuse_result :: CompressedChunk where
  "reuse_result = one_zero_sample_chunk\<lparr>data := (\<lambda>_. 0)(0 := 0xFFC0000000000005),
      idx := 66, prevValue := 0x3FF0000000000001\<rparr>"

section \<open>The bit buffer\<close>

lemma MASK_mask: "MASK n = mask n"
proof (cases "n > 63")
  case True
  have "(mask n :: u64) = - 1"
    by (rule bit_word_eqI) (use True in \<open>auto simp: bit_simps\<close>)
  then show ?thesis using True by (simp add: MASK_def BIT_def)
next
  case False
  then show ?thesis by (simp add: MASK_def BIT_def mask_eq_exp_minus_1)
qed

lemma LSB_take_bit: "LSB x n = take_bit n x"
  by (simp add: LSB_def MASK_mask take_bit_eq_mask)

lemma and_BIT_eq_0: "n < 64 \<Longrightarrow> (w AND BIT n = 0) \<longleftrightarrow> \<not> bit w n"
  by (simp add: BIT_def and_exp_eq_0_iff_not_bit)

lemma Bins_bitoff_gbit: "Bins_bitoff bs b \<longleftrightarrow> \<not> gbit bs (unat b)"
  by (simp add: Bins_bitoff_def gbit_def localbit_def BINW_def and_BIT_eq_0)

lemma readBits_snd: "snd (readBits bs b n) = b + of_nat n"
  by (simp add: readBits_def Let_def)

lemma appendBits_snd: "snd (appendBits bs b d n) = b + of_nat n"
  by (simp add: appendBits_def Let_def)

lemma split_pos:
  fixes g i :: nat
  assumes "g mod 64 + i < 64"
  shows "(g + i) div 64 = g div 64" "(g + i) mod 64 = g mod 64 + i"
proof -
  have e: "g + i = (g mod 64 + i) + (g div 64) * 64" by simp
  show "(g + i) div 64 = g div 64"
    by (subst e, subst div_mult_self1) (use assms in simp_all)
  show "(g + i) mod 64 = g mod 64 + i"
    by (subst e, subst mod_mult_self1) (use assms in simp_all)
qed

lemma split_pos_next:
  fixes g i :: nat
  assumes "64 \<le> g mod 64 + i" "i \<le> 64"
  shows "(g + i) div 64 = Suc (g div 64)" "(g + i) mod 64 = g mod 64 + i - 64"
proof -
  have e: "g + i = (g mod 64 + i - 64) + Suc (g div 64) * 64" using assms by simp
  have lt: "g mod 64 + i - 64 < 64" using assms by (simp add: less_le_trans) 
  show "(g + i) div 64 = Suc (g div 64)"
    by (subst e, subst div_mult_self1) (use lt in simp_all)
  show "(g + i) mod 64 = g mod 64 + i - 64"
    by (subst e, subst mod_mult_self1) (use lt in simp_all)
qed

lemma gbit_low: "unat b mod 64 + i < 64 \<Longrightarrow> gbit bs (unat b + i) = bit (bs (unat b div 64)) (unat b mod 64 + i)"
  by (simp add: gbit_def split_pos)

lemma gbit_high: "64 \<le> unat b mod 64 + i \<Longrightarrow> i \<le> 64 \<Longrightarrow>
   gbit bs (unat b + i) = bit (bs (Suc (unat b div 64))) (unat b mod 64 + i - 64)"
  by (simp add: gbit_def split_pos_next)

lemma readBits_bit:
  assumes "n \<le> 64"
  shows "bit (fst (readBits bs b n)) i \<longleftrightarrow> i < n \<and> gbit bs (unat b + i)"
proof -
  define l where "l = unat b mod 64"
  define k where "k = unat b div 64"
  have l64: "l < 64" by (simp add: l_def)
  show ?thesis
  proof (cases "64 - l \<ge> n")
    case True
    have r: "fst (readBits bs b n) = take_bit n (drop_bit l (bs k))"
      using True by (simp add: readBits_def Let_def localbit_def BINW_def LSB_take_bit l_def k_def)
    show ?thesis
    proof (cases "i < n")
      case i: True
      then have "l + i < 64" using True by linarith
      then have "gbit bs (unat b + i) = bit (bs k) (l + i)"
        unfolding l_def k_def by (rule gbit_low)
      then show ?thesis using i by (simp add: r bit_simps add.commute)
    next
      case False
      then show ?thesis by (simp add: r bit_simps)
    qed
  next
    case False
    have r: "fst (readBits bs b n) = take_bit (64 - l) (drop_bit l (bs k)) OR
         push_bit (64 - l) (take_bit (n - (64 - l)) (bs (Suc k)))"
      using False by (simp add: readBits_def Let_def localbit_def BINW_def LSB_take_bit l_def k_def)
    consider (a) "i < 64 - l" | (b) "64 - l \<le> i" "i < n" | (c) "n \<le> i" by linarith
    then show ?thesis
    proof cases
      case a
      then have "l + i < 64" by linarith
      then have "gbit bs (unat b + i) = bit (bs k) (l + i)"
        unfolding l_def k_def by (rule gbit_low)
      moreover have "i < n" using a False by linarith
      ultimately show ?thesis using a by (simp add: r bit_simps add.commute)
    next
      case b
      then have "64 \<le> l + i" "i \<le> 64" using assms by linarith+
      then have "gbit bs (unat b + i) = bit (bs (Suc k)) (l + i - 64)"
        unfolding l_def k_def by (rule gbit_high)
      moreover have "i - (64 - l) = l + i - 64" using b l64 by linarith
      moreover have "i - (64 - l) < n - (64 - l)" using b by linarith
      moreover have "i < 64" using b assms by linarith
      ultimately show ?thesis using b by (simp add: r bit_simps)
    next
      case c
      then have "\<not> i < 64 - l" "\<not> i - (64 - l) < n - (64 - l)" using False by linarith+
      then show ?thesis using c by (simp add: r bit_simps)
    qed
  qed
qed

lemma appendBits_gbit:
  assumes "n \<le> 64"
  shows "gbit (fst (appendBits bs b d n)) p \<longleftrightarrow>
     gbit bs p \<or> (unat b \<le> p \<and> p < unat b + (if n \<le> 64 - unat b mod 64 then n else 64) \<and> bit d (p - unat b))"
proof -
  define l where "l = unat b mod 64"
  define k where "k = unat b div 64"
  define m where "m = p mod 64"
  define q where "q = p div 64"
  have l64: "l < 64" and m64: "m < 64" by (simp_all add: l_def m_def)
  have g: "unat b = 64 * k + l" by (simp add: l_def k_def)
  have p: "p = 64 * q + m" by (simp add: m_def q_def)
  have gb: "gbit bs' p = bit (bs' q) m" for bs' by (simp add: gbit_def m_def q_def)
  show ?thesis
  proof (cases "n \<le> 64 - l")
    case True
    have r: "fst (appendBits bs b d n) = bs(k := bs k OR push_bit l (take_bit n d))"
      using True by (simp add: appendBits_def Let_def localbit_def BINW_def LSB_take_bit l_def k_def)
    show ?thesis
    proof (cases "q = k")
      case qk: True
      have 1: "unat b \<le> p \<longleftrightarrow> l \<le> m" using g p qk by simp
      have 2: "l \<le> m \<Longrightarrow> p - unat b = m - l" using g p qk by simp
      have 3: "l \<le> m \<Longrightarrow> p < unat b + n \<longleftrightarrow> m - l < n" using g p qk by auto
      show ?thesis using True qk m64 1 2 3
        by (auto simp: gb r bit_simps l_def[symmetric])
    next
      case qk: False 
      have "\<not> (unat b \<le> p \<and> p < unat b + n)" 
      proof
        assume a: "unat b \<le> p \<and> p < unat b + n"
        then have "64 * k \<le> 64 * q + m" "64 * q + m < 64 * k + 64" using g p True by linarith+
        then have "q = k" using m64 by linarith
        then show False using qk by simp
      qed
      then show ?thesis using True qk by (auto simp: gb r l_def[symmetric])
    qed
  next
    case False
    have r: "fst (appendBits bs b d n) = (bs(k := bs k OR push_bit l d))
        (Suc k := bs (Suc k) OR take_bit l (drop_bit (64 - l) d))"
      using False by (simp add: appendBits_def Let_def localbit_def BINW_def LSB_take_bit l_def k_def)
    consider (a) "q = k" | (b) "q = Suc k" | (c) "q \<noteq> k" "q \<noteq> Suc k" by blast
    then show ?thesis
    proof cases
      case a
      have 1: "unat b \<le> p \<longleftrightarrow> l \<le> m" using g p a by simp
      have 2: "l \<le> m \<Longrightarrow> p - unat b = m - l" using g p a by simp
      have 3: "p < unat b + 64" using g p a m64 by simp
      show ?thesis using False a m64 1 2 3
        by (auto simp: gb r bit_simps l_def[symmetric])
    next
      case b
      have 1: "unat b \<le> p" using g p b l64 by simp
      have 2: "p - unat b = 64 - l + m" using g p b l64 by simp
      have 3: "p < unat b + 64 \<longleftrightarrow> m < l" using g p b by auto
      show ?thesis using False b m64 1 2 3
        by (auto simp: gb r bit_simps l_def[symmetric] dest: bit_imp_le_length)
    next
      case c
      have "\<not> (unat b \<le> p \<and> p < unat b + 64)" 
      proof
        assume a: "unat b \<le> p \<and> p < unat b + 64"
        then have "64 * k \<le> 64 * q + m" "64 * q + m < 64 * k + 128" using g p l64 by linarith+
        then have "q = k \<or> q = Suc k" using m64 by linarith
        then show False using c by simp
      qed
      then show ?thesis using False c by (auto simp: gb r l_def[symmetric])
    qed
  qed
qed

section \<open>The integer codec\<close>

lemma sint_range_bits:
  fixes x :: u64
  assumes "n < 64" "- (2 ^ n) \<le> sint x" "sint x < 2 ^ n" "n \<le> i" "i < 64"
  shows "bit x i = bit x n"
proof -
  have "signed_take_bit n (sint x) = sint x"
    using assms by (simp add: signed_take_bit_int_eq_self_iff)
  then have "bit (sint x) i = bit (signed_take_bit n (sint x)) i" by simp
  also have "\<dots> = bit (sint x) n" using assms by (simp add: bit_signed_take_bit_iff min_def)
  finally show ?thesis using assms by (simp add: bit_sint_iff min_def)
qed

lemma bin2int_int2bin:
  fixes x :: u64
  assumes "0 < w" "w < 64" "- (2 ^ (w - 1)) \<le> sint x" "sint x \<le> 2 ^ (w - 1) - 1"
  shows "bin2int (int2bin x w) w = x"
proof -
  have hi: "bit x i = bit x (w - 1)" if "w - 1 \<le> i" "i < 64" for i
    using sint_range_bits[of "w - 1" x i] assms that by simp
  have t: "(take_bit w x AND BIT (w - 1) = 0) \<longleftrightarrow> \<not> bit x (w - 1)"
    using assms by (simp add: and_BIT_eq_0 bit_simps)
  show ?thesis
  proof (cases "bit x (w - 1)")
    case False
    have "take_bit w x = x"
    proof (rule bit_word_eqI)
      fix i assume "i < LENGTH(64)"
      then show "bit (take_bit w x) i = bit x i"
        using False hi[of i] assms by (cases "i < w") (simp_all add: bit_simps)
    qed
    then show ?thesis using False t assms
      by (simp add: bin2int_def int2bin_def LSB_take_bit minus1_def)
  next
    case True
    have o: "take_bit w x OR NOT (mask w) = x"
    proof (rule bit_word_eqI)
      fix i assume "i < LENGTH(64)"
      then show "bit (take_bit w x OR NOT (mask w)) i = bit x i"
        using True hi[of i] assms by (cases "i < w") (simp_all add: bit_simps)
    qed
    have d: "take_bit w x AND NOT (mask w) = 0"
      by (rule bit_word_eqI) (simp add: bit_simps)
    have "take_bit w x + NOT (mask w) = x"
      using o disjunctive_add_eq_or[OF d] by simp
    then have "take_bit w x - 2 ^ w = x"
      by (simp add: minus_exp_eq_not_mask[symmetric])
    moreover have "BIT w = 2 ^ w" using assms by (simp add: BIT_def)
    ultimately show ?thesis using True t assms
      by (simp add: bin2int_def int2bin_def LSB_take_bit minus1_def)
  qed
qed

text \<open>
  C8. For every width \<open>w\<close> of 5, 8, 11, 15 and 32 and every signed 64-bit \<open>x\<close> with
  \<open>- 2 ^ (w - 1) \<le> x \<le> 2 ^ (w - 1) - 1\<close>: \<^verbatim>\<open>int2bin\<close> keeps the low \<open>w\<close> bits of the two's
  complement representation of \<open>x\<close>, and \<^verbatim>\<open>bin2int\<close>, which subtracts \<open>2 ^ w\<close> when bit
  \<open>w - 1\<close> is set, gives \<open>x\<close> back.
\<close>

theorem C8_bin2int_int2bin_roundtrip:
  fixes x :: u64
  assumes "w \<in> {5, 8, 11, 15, 32}"
    and "- (2 ^ (w - 1)) \<le> sint x" and "sint x \<le> 2 ^ (w - 1) - 1"
  shows "int2bin x w = take_bit w x \<and> bin2int (int2bin x w) w = x"
  using assms bin2int_int2bin[of w x] by (auto simp: int2bin_def LSB_take_bit)

theorem C8_witness:
  "(5::nat) \<in> {5, 8, 11, 15, 32} \<and> - (2 ^ (5 - 1)) \<le> sint (- 7 :: u64) \<and> sint (- 7 :: u64) \<le> 2 ^ (5 - 1) - 1
   \<and> int2bin (- 7) 5 = 25 \<and> bin2int (int2bin (- 7) 5) 5 = (- 7 :: u64)"
proof -
  have a: "(5::nat) \<in> {5, 8, 11, 15, 32}" by simp
  have b: "- (2 ^ (5 - 1)) \<le> sint (- 7 :: u64)" by simp
  have c: "sint (- 7 :: u64) \<le> 2 ^ (5 - 1) - 1" by simp
  have d: "int2bin (- 7) 5 = 25" by (simp add: int2bin_def LSB_def MASK_def BIT_def)
  from C8_bin2int_int2bin_roundtrip[OF a b c] have "bin2int (int2bin (- 7) 5) 5 = (- 7 :: u64)" ..
  with a b c d show ?thesis by blast
qed

section \<open>Evaluating the model\<close>

text \<open>The definitions a concrete call unfolds to.\<close>

lemmas eval_defs = zero_chunk_def Compressed_Append_def appendInteger_def appendFloat_def appendBits_def
     isSpaceAvailable_def Let_def Bin_InRange_def Bin_MinVal_def Bin_MaxVal_def BIT_def minus1_def
     CMPR_L1_def CMPR_L2_def CMPR_L3_def CMPR_L4_def CMPR_L5_def int2bin_def LSB_def MASK_def localbit_def BINW_def
     DOUBLE_LEADING_def DOUBLE_BLOCK_SIZE_def DOUBLE_BLOCK_ADJUST_def
     Compressed_ReadNext_def readInteger_def readFloat_def readBits_def Bins_bitoff_def bin2int_def
     Compressed_NewChunkIterator_def word_le_nat_alt

lemma one_sample_chunk_append: "Compressed_Append (zero_chunk 128) 1000 0x4014000000000000 = Some (CR_OK, one_sample_chunk)"
  by (simp add: one_sample_chunk_def eval_defs)

text \<open>
  C6, as stated, fails: after \<open>(1000, 5.0)\<close>, \<open>(1010, 5.0)\<close>, \<open>(1020, 5.0)\<close> on a fresh chunk of
  128 bytes the cursor is not at bit 4.
\<close>

theorem C6_counterexample:
  "map_option idx (append_all (zero_chunk 128) S2_samples) \<noteq> Some 4"
  by (simp add: S2_samples_def eval_defs)

text \<open>
  C6, amended. The first append writes nothing. The second has delta 10 against the initial
  delta 0, so its delta of deltas is 10: prefix \<open>01\<close>, 5 bits, and one bit for XOR = 0, 8 bits in
  all. The third has delta of deltas 0 and writes 2 bits. The cursor ends at bit 10, and
  reading three samples from a new iterator gives the three samples back.
\<close>

theorem C6_S2_scenario:
  "map_option idx (append_all (zero_chunk 128) (take 1 S2_samples)) = Some 0 \<and>
   map_option idx (append_all (zero_chunk 128) (take 2 S2_samples)) = Some 8 \<and>
   map_option idx (append_all (zero_chunk 128) S2_samples) = Some 10 \<and>
   Option.bind (append_all (zero_chunk 128) S2_samples)
     (\<lambda>c. map_option fst (read_n c (Compressed_NewChunkIterator c) (length S2_samples))) = Some S2_samples"
  by (simp add: S2_samples_def eval_defs)

text \<open>
  C7, amended. On a chunk with at least one sample, a call of \<^verbatim>\<open>Compressed_ReadNext\<close> with
  \<open>count = 0\<close> returns \<^verbatim>\<open>CR_OK\<close>, emits \<open>(baseTimestamp, baseValue)\<close> and increments \<open>count\<close>;
  every other field of the iterator, \<open>prevTS\<close>, \<open>prevDelta\<close> and \<open>prevValue\<close> among them, is
  left as the creator of the iterator set it.
\<close>

theorem C7_first_ReadNext:
  assumes "it_count iter = 0" and "base_numSamples chunk \<noteq> 0"
  shows "Compressed_ReadNext chunk iter =
     Some (CR_OK, Some (base_baseTimestamp chunk, baseValue chunk), iter\<lparr>it_count := 1\<rparr>)"
proof -
  have "\<not> base_numSamples chunk \<le> 0" using assms(2) by (simp add: word_le_0_iff)
  then show ?thesis using assms by (simp add: Compressed_ReadNext_def)
qed

text \<open>The theorem of C7 at the chunk holding \<open>(1000, 5.0)\<close> and an all-zero iterator.\<close>

theorem C7_witness:
  "it_count zero_iterator = 0 \<and> base_numSamples one_sample_chunk \<noteq> 0 \<and>
   Compressed_ReadNext one_sample_chunk zero_iterator =
     Some (CR_OK, Some (1000, 0x4014000000000000), zero_iterator\<lparr>it_count := 1\<rparr>)"
proof -
  have a: "it_count zero_iterator = 0" by (simp add: zero_iterator_def)
  have b: "base_numSamples one_sample_chunk \<noteq> 0" by (simp add: one_sample_chunk_def zero_chunk_def)
  show ?thesis using a b C7_first_ReadNext[OF a b] by (simp add: one_sample_chunk_def zero_chunk_def)
qed

text \<open>
  C7, as stated, fails: on the chunk holding \<open>(1000, 5.0)\<close>, the first call on an iterator
  whose \<open>prevTS\<close> and \<open>prevValue\<close> are 0 leaves them 0, not \<open>baseTimestamp\<close> and \<open>baseValue\<close>.
\<close>

theorem C7_counterexample:
  "Compressed_ReadNext one_sample_chunk zero_iterator =
     Some (CR_OK, Some (1000, 0x4014000000000000), zero_iterator\<lparr>it_count := 1\<rparr>) \<and>
   it_prevTS (zero_iterator\<lparr>it_count := 1\<rparr>) \<noteq> base_baseTimestamp one_sample_chunk \<and>
   it_prevValue (zero_iterator\<lparr>it_count := 1\<rparr>) \<noteq> baseValue one_sample_chunk"
  by (simp add: one_sample_chunk_def zero_iterator_def eval_defs)

text \<open>
  C9, as stated, fails: writing 8 bits of \<open>0xFFFF\<close> at bit 60 of an all-zero buffer spans two
  bins. The second bin gets \<^verbatim>\<open>LSB(data >> available, lbit)\<close>, 12 bits wide here, so bits 68
  to 75, outside the 8 bits written, are set. Reading 8 bits at bit 60 still gives \<open>0xFF\<close>.
\<close>

theorem C9_counterexample:
  "zero_range zero_bins (unat (60 :: u64)) 8 \<and>
   fst (appendBits zero_bins 60 0xFFFF 8) 1 = 0xFFF \<and>
   \<not> gbit zero_bins 68 \<and> gbit (fst (appendBits zero_bins 60 0xFFFF 8)) 68 \<and>
   readBits (fst (appendBits zero_bins 60 0xFFFF 8)) 60 8 = (0xFF, 68)"
  by (simp add: eval_defs gbit_def zero_bins_def zero_range_def upt_rec)

section \<open>What the encoders write\<close>

lemma appendBits_zero_len: "appendBits bs b d 0 = (bs, b)"
  by (simp add: appendBits_def Let_def LSB_take_bit BINW_def localbit_def)

lemma appendInteger_alt:
  "appendInteger chunk timestamp =
     (if timestamp < prevTimestamp chunk then None
      else
        (let curDelta = timestamp - prevTimestamp chunk;
             (pre, plen, pay, w) = dd_code (curDelta - prevTimestampDelta chunk)
         in if \<not> isSpaceAvailable chunk (plen + w + 1) then Some (CR_ERR, chunk)
            else
              (let (bs1, b1) = appendBits (data chunk) (idx chunk) pre plen;
                   (bs2, b2) = appendBits bs1 b1 pay w
               in Some (CR_OK, chunk\<lparr>data := bs2, idx := b2,
                                   prevTimestampDelta := curDelta,
                                   prevTimestamp := timestamp\<rparr>))))"
  by (simp add: appendInteger_def dd_code_def Let_def appendBits_zero_len split_def not_le
        CMPR_L1_def CMPR_L2_def CMPR_L3_def CMPR_L4_def CMPR_L5_def)

lemma take_bit_64 [simp]: "take_bit 64 (x :: u64) = x"
  by (simp add: take_bit_word_eq_self)

lemma dd_code_props:
  assumes "dd_code dd = (pre, plen, pay, w)"
  shows "1 \<le> plen" "plen \<le> 6" "w \<le> 64" "take_bit plen pre = pre" "take_bit w pay = pay"
  using assms
  by (auto simp: dd_code_def int2bin_def LSB_take_bit CMPR_L1_def CMPR_L2_def CMPR_L3_def CMPR_L4_def CMPR_L5_def
      split: if_splits)

lemma unat_cursor:
  fixes b :: u64
  assumes "unat b + n < 2 ^ 64"
  shows "unat (b + of_nat n) = unat b + n"
proof -
  have "n < 2 ^ 64" using assms by simp
  then have "unat (of_nat n :: u64) = n" by (simp add: unat_of_nat)
  then show ?thesis using assms by (simp add: unat_add_lem[THEN iffD1])
qed

lemma appendBits_props:
  assumes "n \<le> 64" and "appendBits bs b d n = (bs', b')"
  shows "b' = b + of_nat n"
    and "p < unat b \<Longrightarrow> gbit bs' p = gbit bs p"
    and "gbit bs p \<Longrightarrow> gbit bs' p"
    and "take_bit n d = d \<Longrightarrow>
           gbit bs' p = (gbit bs p \<or> (unat b \<le> p \<and> p < unat b + n \<and> bit d (p - unat b)))"
proof -
  have f: "bs' = fst (appendBits bs b d n)" and s: "b' = snd (appendBits bs b d n)"
    using assms(2) by simp_all
  show "b' = b + of_nat n" by (simp add: s appendBits_snd)
  show "p < unat b \<Longrightarrow> gbit bs' p = gbit bs p"
    unfolding f by (simp add: appendBits_gbit[OF assms(1)])
  show "gbit bs p \<Longrightarrow> gbit bs' p"
    unfolding f by (simp add: appendBits_gbit[OF assms(1)])
  show "gbit bs' p = (gbit bs p \<or> (unat b \<le> p \<and> p < unat b + n \<and> bit d (p - unat b)))"
    if t: "take_bit n d = d"
  proof -
    have "\<not> bit d i" if "n \<le> i" for i
    proof -
      have "\<not> bit (take_bit n d) i" using that by (simp add: bit_simps)
      then show ?thesis by (simp add: t)
    qed
    then have nb: "\<not> bit d (p - unat b)" if "unat b + n \<le> p" 
      using that by simp
    have "(unat b \<le> p \<and> p < unat b + (if n \<le> 64 - unat b mod 64 then n else 64) \<and> bit d (p - unat b))
        \<longleftrightarrow> (unat b \<le> p \<and> p < unat b + n \<and> bit d (p - unat b))"
      using assms(1) nb by (cases "p < unat b + n") auto
    then show ?thesis unfolding f appendBits_gbit[OF assms(1)] by simp
  qed
qed

subsection \<open>A write read back\<close>

lemma zero_range_iff: "zero_range bs g n \<longleftrightarrow> (\<forall>i<n. \<not> gbit bs (g + i))"
  by (auto simp: zero_range_def list_all_iff)

lemma take_bit_small: "unat (v :: u64) < 2 ^ n \<Longrightarrow> take_bit n v = v"
  by (rule word_unat_eq_iff[THEN iffD2]) (simp add: unsigned_take_bit_eq take_bit_nat_eq_self)

text \<open>
  C9, amended. Let \<open>1 \<le> n \<le> 64\<close>, let the cursor \<open>g\<close> satisfy \<open>g + n \<le> 8C\<close>, and let the
  bits \<open>[g, g + n)\<close> of the buffer be 0. For every \<open>v\<close> when the \<open>n\<close> bits lie within one bin,
  and for every \<open>v < 2\<^sup>n\<close> when they span two bins: \<^verbatim>\<open>appendBits\<close> advances the cursor by \<open>n\<close>
  and writes bit \<open>i\<close> of \<open>v\<close> at \<open>g + i\<close>; \<^verbatim>\<open>readBits\<close> at \<open>g\<close> then returns \<open>v mod 2\<^sup>n\<close>, with
  its bits from \<open>n\<close> on 0, and advances the cursor by \<open>n\<close>; every bit of the buffer outside
  \<open>[g, g + n)\<close> is unchanged.
\<close>

theorem C9_append_then_read:
  fixes g v :: u64
  assumes n: "1 \<le> n" "n \<le> 64"
    and cap: "unat g + n \<le> 8 * C" "8 * C < 2 ^ 64"
    and z: "zero_range bs (unat g) n"
    and v: "n \<le> 64 - unat g mod 64 \<or> unat v < 2 ^ n"
  shows "snd (appendBits bs g v n) = g + of_nat n \<and> unat (g + of_nat n) = unat g + n \<and>
         readBits (fst (appendBits bs g v n)) g n = (take_bit n v, g + of_nat n) \<and>
         (\<forall>i\<ge>n. \<not> bit (fst (readBits (fst (appendBits bs g v n)) g n)) i) \<and>
         (\<forall>i<n. gbit (fst (appendBits bs g v n)) (unat g + i) = bit v i) \<and>
         (\<forall>p. p < unat g \<or> unat g + n \<le> p \<longrightarrow> gbit (fst (appendBits bs g v n)) p = gbit bs p)"
proof -
  define bs' where "bs' = fst (appendBits bs g v n)"
  have cur: "unat (g + of_nat n) = unat g + n"
    using cap by (intro unat_cursor) simp
  have z': "\<not> gbit bs (unat g + i)" if "i < n" for i
    using z that by (simp add: zero_range_iff)
  have hi: "\<not> bit v i" if "n \<le> i" "\<not> n \<le> 64 - unat g mod 64" for i
  proof -
    have "unat v < 2 ^ n" using v that(2) by simp
    then have "take_bit n v = v" by (rule take_bit_small)
    then have "bit v i = bit (take_bit n v) i" by simp
    then show ?thesis using that(1) by (simp add: bit_simps)
  qed
  have wr: "gbit bs' (unat g + i) = bit v i" if "i < n" for i
    using that z'[OF that] n
    by (auto simp: bs'_def appendBits_gbit[OF n(2)])
  have fr: "gbit bs' p = gbit bs p" if "p < unat g \<or> unat g + n \<le> p" for p
  proof (cases "n \<le> 64 - unat g mod 64")
    case True
    then show ?thesis using that by (auto simp: bs'_def appendBits_gbit[OF n(2)])
  next
    case False
    have "\<not> bit v (p - unat g)" if "unat g + n \<le> p"
      using hi[of "p - unat g"] that False by simp
    then show ?thesis using that by (auto simp: bs'_def appendBits_gbit[OF n(2)])
  qed
  have rd: "fst (readBits bs' g n) = take_bit n v"
  proof (rule bit_word_eqI)
    fix i assume "i < LENGTH(64)"
    show "bit (fst (readBits bs' g n)) i = bit (take_bit n v) i"
      using wr[of i] by (auto simp: readBits_bit[OF n(2)] bit_simps)
  qed
  have rd2: "readBits bs' g n = (take_bit n v, g + of_nat n)"
    using rd by (simp add: prod_eq_iff readBits_snd)
  have top: "\<not> bit (fst (readBits bs' g n)) i" if "n \<le> i" for i
    using that by (simp add: readBits_bit[OF n(2)])
  have s: "snd (appendBits bs g v n) = g + of_nat n" by (rule appendBits_snd)
  show ?thesis
    unfolding bs'_def[symmetric] using s cur rd2 top wr fr by blast
qed

text \<open>The theorem of C9 at a write of the 8 bits \<open>0xA5\<close> at bit 60, across two bins.\<close>

theorem C9_witness:
  "zero_range zero_bins (unat (60 :: u64)) 8 \<and> \<not> (8 :: nat) \<le> 64 - unat (60 :: u64) mod 64 \<and>
   unat (0xA5 :: u64) < 2 ^ 8 \<and>
   snd (appendBits zero_bins 60 0xA5 8) = 68 \<and>
   readBits (fst (appendBits zero_bins 60 0xA5 8)) 60 8 = (0xA5, 68) \<and>
   gbit (fst (appendBits zero_bins 60 0xA5 8)) 67 \<and>
   gbit (fst (appendBits zero_bins 60 0xA5 8)) 68 = gbit zero_bins 68"
proof -
  have z: "zero_range zero_bins (unat (60 :: u64)) 8"
    by (simp add: zero_range_def zero_bins_def gbit_def upt_rec)
  have sp: "\<not> (8 :: nat) \<le> 64 - unat (60 :: u64) mod 64" by simp
  have v: "unat (0xA5 :: u64) < 2 ^ 8" by simp
  have "(8 :: nat) \<le> 64 - unat (60 :: u64) mod 64 \<or> unat (0xA5 :: u64) < 2 ^ 8" using v ..
  note t = C9_append_then_read[where n = 8 and g = 60 and C = 128 and bs = zero_bins and v = "0xA5", OF _ _ _ _ z this]
  have t': "snd (appendBits zero_bins 60 0xA5 8) = 60 + of_nat 8 \<and> unat ((60 :: u64) + of_nat 8) = unat (60 :: u64) + 8 \<and>
         readBits (fst (appendBits zero_bins 60 0xA5 8)) 60 8 = (take_bit 8 0xA5, 60 + of_nat 8) \<and>
         (\<forall>i\<ge>8. \<not> bit (fst (readBits (fst (appendBits zero_bins 60 0xA5 8)) 60 8)) i) \<and>
         (\<forall>i<8. gbit (fst (appendBits zero_bins 60 0xA5 8)) (unat (60 :: u64) + i) = bit (0xA5 :: u64) i) \<and>
         (\<forall>p. p < unat (60 :: u64) \<or> unat (60 :: u64) + 8 \<le> p \<longrightarrow> gbit (fst (appendBits zero_bins 60 0xA5 8)) p = gbit zero_bins p)"
    by (rule t) simp_all
  have a: "snd (appendBits zero_bins 60 0xA5 8) = 68" using t' by simp
  have b: "readBits (fst (appendBits zero_bins 60 0xA5 8)) 60 8 = (0xA5, 68)" using t' by simp
  have "gbit (fst (appendBits zero_bins 60 0xA5 8)) (unat (60 :: u64) + 7) = bit (0xA5 :: u64) 7"
    using t' by (meson less_add_one numeral_less_iff semiring_norm)
  then have c: "gbit (fst (appendBits zero_bins 60 0xA5 8)) 67" by (simp add: bit_numeral_simps)
  have "gbit (fst (appendBits zero_bins 60 0xA5 8)) 68 = gbit zero_bins 68"
    using t' by simp
  with z sp v a b c show ?thesis by blast
qed

lemma clz_below_le: "clz_below n x \<le> n"
  by (induction n) auto

lemma clz_below_zero: "n - clz_below n x \<le> i \<Longrightarrow> i < n \<Longrightarrow> \<not> bit x i"
proof (induction n)
  case 0
  then show ?case by simp
next
  case (Suc n)
  show ?case
  proof (cases "bit x n")
    case True
    then show ?thesis using Suc.prems by simp
  next
    case False
    show ?thesis
    proof (cases "i = n")
      case True
      then show ?thesis using False by simp
    next
      case F: False
      have "n - clz_below n x \<le> i" using Suc.prems False clz_below_le[of n x] by simp
      moreover have "i < n" using Suc.prems F by simp
      ultimately show ?thesis by (rule Suc.IH)
    qed
  qed
qed

lemma clz_below_set: "bit x j \<Longrightarrow> j < n \<Longrightarrow> clz_below n x + j < n"
proof (induction n)
  case 0
  then show ?case by simp
next
  case (Suc n)
  show ?case
  proof (cases "bit x n")
    case True
    then show ?thesis using Suc.prems by simp
  next
    case False
    then have "j \<noteq> n" using Suc.prems by auto
    then have "j < n" using Suc.prems by simp
    then have "clz_below n x + j < n" using Suc.prems Suc.IH by simp
    then show ?thesis using False by simp
  qed
qed

lemma ctz_fuel_zero: "i < ctz_fuel n x \<Longrightarrow> \<not> bit x i"
proof (induction n arbitrary: x i)
  case 0
  then show ?case by simp
next
  case (Suc n)
  show ?case
  proof (cases "bit x 0")
    case True
    then show ?thesis using Suc.prems by simp
  next
    case False
    show ?thesis
    proof (cases i)
      case 0
      then show ?thesis using False by simp
    next
      case (Suc i')
      then have "i' < ctz_fuel n (drop_bit 1 x)" using Suc.prems False by simp
      then have "\<not> bit (drop_bit 1 x) i'" by (rule Suc.IH)
      then show ?thesis using Suc by (simp add: bit_simps)
    qed
  qed
qed

lemma ctz_fuel_set: "bit x j \<Longrightarrow> ctz_fuel n x \<le> j"
proof (induction n arbitrary: x j)
  case 0
  then show ?case by simp
next
  case (Suc n)
  show ?case
  proof (cases "bit x 0")
    case True
    then show ?thesis by simp
  next
    case False
    then obtain j' where j: "j = Suc j'" using Suc.prems by (cases j) auto
    then have "bit (drop_bit 1 x) j'" using Suc.prems by (simp add: bit_simps)
    then have "ctz_fuel n (drop_bit 1 x) \<le> j'" by (rule Suc.IH)
    then show ?thesis using False j by simp
  qed
qed

lemma nonzero_bit:
  fixes x :: u64
  assumes "x \<noteq> 0"
  obtains j where "bit x j" "j < 64"
proof -
  from assms obtain j where "bit x j" by (auto simp: bit_eq_iff)
  moreover then have "j < 64" by (auto dest: bit_imp_le_length)
  ultimately show ?thesis using that by blast
qed

lemma clz_ctz_sum:
  assumes "x \<noteq> 0"
  shows "LeadingZeros64 x + TrailingZeros64 x \<le> 63"
proof -
  obtain j where j: "bit x j" "j < 64" using assms by (rule nonzero_bit)
  have "clz_below 64 x + j < 64" using j by (rule clz_below_set)
  moreover have "ctz_fuel 64 x \<le> j" using j(1) by (rule ctz_fuel_set)
  ultimately show ?thesis by (simp add: LeadingZeros64_def TrailingZeros64_def)
qed

lemma LeadingZeros64_zero: "64 - LeadingZeros64 x \<le> i \<Longrightarrow> \<not> bit x i"
proof (cases "i < 64")
  case True
  assume "64 - LeadingZeros64 x \<le> i"
  then show ?thesis using True clz_below_zero[of 64 x i] by (simp add: LeadingZeros64_def)
next
  case False
  then show ?thesis by (auto dest: bit_imp_le_length)
qed

lemma TrailingZeros64_zero: "i < TrailingZeros64 x \<Longrightarrow> \<not> bit x i"
  by (simp add: TrailingZeros64_def ctz_fuel_zero)

text \<open>A window \<open>(l, t)\<close> that covers the XOR: shifting out \<open>t\<close> bits and keeping \<open>64 - l - t\<close> loses nothing.\<close>

lemma window_fits:
  fixes x :: u64
  assumes "l \<le> LeadingZeros64 x" "t \<le> TrailingZeros64 x" "l + t \<le> 64"
  shows "take_bit (64 - l - t) (drop_bit t x) = drop_bit t x"
    and "push_bit t (drop_bit t x) = x"
proof -
  show "take_bit (64 - l - t) (drop_bit t x) = drop_bit t x"
  proof (rule bit_word_eqI)
    fix i assume "i < LENGTH(64)"
    show "bit (take_bit (64 - l - t) (drop_bit t x)) i = bit (drop_bit t x) i"
    proof (cases "i < 64 - l - t")
      case True
      then show ?thesis by (simp add: bit_simps)
    next
      case False
      then have "64 - LeadingZeros64 x \<le> t + i" using assms by linarith
      then have "\<not> bit x (t + i)" by (rule LeadingZeros64_zero)
      then show ?thesis using False by (simp add: bit_simps)
    qed
  qed
  show "push_bit t (drop_bit t x) = x"
  proof (rule bit_word_eqI)
    fix i assume i: "i < LENGTH(64)"
    show "bit (push_bit t (drop_bit t x)) i = bit x i"
    proof (cases "t \<le> i")
      case True
      then show ?thesis using i by (simp add: bit_simps)
    next
      case False
      then have "i < TrailingZeros64 x" using assms by linarith
      then have "\<not> bit x i" by (rule TrailingZeros64_zero)
      then show ?thesis using False by (simp add: bit_simps)
    qed
  qed
qed

lemma xor_leading_le: "xor_leading x \<le> LeadingZeros64 x" "xor_leading x \<le> 31"
  by (simp_all add: xor_leading_def)

lemma xor_window_sum: "x \<noteq> 0 \<Longrightarrow> xor_leading x + TrailingZeros64 x \<le> 63"
  using clz_ctz_sum[of x] xor_leading_le(1)[of x] by linarith

lemma appendFloat_alt:
  "appendFloat chunk v =
     (let x = v XOR prevValue chunk
      in if x = 0 then
           Some (CR_OK, chunk\<lparr>data := fst (appendBits (data chunk) (idx chunk) 0 1),
                              idx := idx chunk + 1\<rparr>)
         else
           (let l = xor_leading x; t = TrailingZeros64 x;
                pl = unat (prevLeading chunk); pt = unat (prevTrailing chunk);
                bs0 = fst (appendBits (data chunk) (idx chunk) 1 1);
                chunk0 = chunk\<lparr>data := bs0, idx := idx chunk + 1\<rparr>
            in if \<not> pl + pt \<le> 64 then None
               else if pl \<le> l \<and> pt \<le> t \<and> 64 - pl - pt < 11 + (64 - l - t) then
                 (if \<not> isSpaceAvailable chunk0 (64 - pl - pt + 1) then Some (CR_ERR, chunk0)
                  else
                    Some (CR_OK, chunk\<lparr>data := fst (appendBits (fst (appendBits bs0 (idx chunk + 1) 0 1))
                                                   (idx chunk + 2) (drop_bit pt x) (64 - pl - pt)),
                                       idx := idx chunk + 2 + of_nat (64 - pl - pt),
                                       prevValue := v\<rparr>))
               else
                 (if \<not> isSpaceAvailable chunk0 (11 + (64 - l - t) + 1) then Some (CR_ERR, chunk0)
                  else
                    Some (CR_OK, chunk\<lparr>data :=
                             fst (appendBits (fst (appendBits (fst (appendBits (fst (appendBits bs0
                                (idx chunk + 1) 1 1))
                                (idx chunk + 2) (of_nat l) 5))
                                (idx chunk + 7) (of_nat (64 - l - t) - 1) 6))
                                (idx chunk + 13) (drop_bit t x) (64 - l - t)),
                           idx := idx chunk + 13 + of_nat (64 - l - t),
                           prevLeading := of_nat l, prevTrailing := of_nat t,
                           prevValue := v\<rparr>))))"
proof (cases "v XOR prevValue chunk = 0")
  case True
  then show ?thesis
    by (simp add: appendFloat_def Let_def split_def appendBits_snd)
next
  case False
  define x where "x = v XOR prevValue chunk"
  have x: "x \<noteq> 0" using False by (simp add: x_def)
  have s: "xor_leading x + TrailingZeros64 x \<le> 63" using x by (rule xor_window_sum)
  then have m: "(64 - xor_leading x - TrailingZeros64 x) mod 256 = 64 - xor_leading x - TrailingZeros64 x"
    by simp
  have m2: "(64 - unat (prevLeading chunk) - unat (prevTrailing chunk)) mod 256 =
      64 - unat (prevLeading chunk) - unat (prevTrailing chunk)" by simp
  have l: "(if 31 < LeadingZeros64 x then 31 else LeadingZeros64 x) = xor_leading x"
    by (simp add: xor_leading_def)
  show ?thesis
    using x s
    by (simp add: appendFloat_def Let_def split_def appendBits_snd x_def[symmetric] l m m2 BINW_def
        DOUBLE_LEADING_def DOUBLE_BLOCK_SIZE_def DOUBLE_BLOCK_ADJUST_def not_le not_less add.assoc)
qed

lemma space_unat:
  assumes "idx_in_bounds chunk" "isSpaceAvailable chunk n" "n < 256"
  shows "unat (idx chunk) + n \<le> unat (base_size chunk * 8)"
proof -
  have le: "idx chunk \<le> base_size chunk * 8" using assms(1) by (simp add: idx_in_bounds_def)
  have "of_nat n \<le> base_size chunk * 8 - idx chunk"
    using assms(2,3) by (simp add: isSpaceAvailable_def)
  then have "unat (of_nat n :: u64) \<le> unat (base_size chunk * 8 - idx chunk)"
    by (simp add: word_le_nat_alt)
  moreover have "unat (of_nat n :: u64) = n" using assms(3) by (simp add: unat_of_nat)
  moreover have "unat (base_size chunk * 8 - idx chunk) = unat (base_size chunk * 8) - unat (idx chunk)"
    using le by (simp add: unat_sub)
  moreover have "unat (idx chunk) \<le> unat (base_size chunk * 8)" using le by (simp add: word_le_nat_alt)
  ultimately show ?thesis by linarith
qed

lemma unat_lt_2p64: "unat (x :: u64) < 2 ^ 64"
  using unsigned_less[of x, where 'a = nat] by simp

lemma length_bits_of [simp]: "length (bits_of d n) = n"
  by (simp add: bits_of_def)

lemma nth_bits_of [simp]: "i < n \<Longrightarrow> bits_of d n ! i = bit d i"
  by (simp add: bits_of_def)

lemma stream_append [simp]: "stream (fs @ gs) = stream fs @ stream gs"
  by (induction fs) auto

lemma fits_Cons [simp]: "fits ((d, n) # fs) \<longleftrightarrow> n \<le> 64 \<and> take_bit n d = d \<and> fits fs"
  by (auto simp: fits_def)

lemma fits_Nil [simp]: "fits []"
  by (simp add: fits_def)

lemma fits_append [simp]: "fits (fs @ gs) \<longleftrightarrow> fits fs \<and> fits gs"
  by (auto simp: fits_def)

lemma fields_written_aux:
  "fits fs \<Longrightarrow> unat b + length (stream fs) < 2 ^ 64 \<Longrightarrow>
     snd (appendFields bs b fs) = b + of_nat (length (stream fs)) \<and>
     (\<forall>p. gbit (fst (appendFields bs b fs)) p \<longleftrightarrow>
           gbit bs p \<or> (unat b \<le> p \<and> p < unat b + length (stream fs) \<and> stream fs ! (p - unat b)))"
proof (induction fs arbitrary: bs b)
  case Nil
  show ?case by auto
next
  case (Cons f fs)
  obtain d n where f: "f = (d, n)" by (cases f)
  define bs1 where "bs1 = fst (appendBits bs b d n)"
  define b1 where "b1 = b + of_nat n"
  have a: "appendBits bs b d n = (bs1, b1)"
    by (simp add: bs1_def b1_def prod_eq_iff appendBits_snd)
  have n: "n \<le> 64" and t: "take_bit n d = d" and fs: "fits fs" using Cons.prems(1) f by simp_all
  have room: "unat b + n + length (stream fs) < 2 ^ 64" using Cons.prems(2) f by simp
  then have "unat b + n < 2 ^ 64" by simp
  then have u: "unat b1 = unat b + n" unfolding b1_def by (rule unat_cursor)
  have ih: "snd (appendFields bs1 b1 fs) = b1 + of_nat (length (stream fs)) \<and>
     (\<forall>p. gbit (fst (appendFields bs1 b1 fs)) p \<longleftrightarrow>
           gbit bs1 p \<or> (unat b1 \<le> p \<and> p < unat b1 + length (stream fs) \<and> stream fs ! (p - unat b1)))"
    using fs room u by (intro Cons.IH) simp_all
  have w: "gbit bs1 p = (gbit bs p \<or> (unat b \<le> p \<and> p < unat b + n \<and> bit d (p - unat b)))" for p
    using appendBits_props(4)[OF n a t] .
  have 1: "snd (appendFields bs b (f # fs)) = b + of_nat (length (stream (f # fs)))"
    using ih by (simp add: f a b1_def add.assoc)
  have 2: "gbit (fst (appendFields bs b (f # fs))) p \<longleftrightarrow>
           gbit bs p \<or> (unat b \<le> p \<and> p < unat b + length (stream (f # fs)) \<and> stream (f # fs) ! (p - unat b))" for p
  proof -
    have ih2: "gbit (fst (appendFields bs1 b1 fs)) p \<longleftrightarrow>
           gbit bs1 p \<or> (unat b + n \<le> p \<and> p < unat b + n + length (stream fs) \<and> stream fs ! (p - (unat b + n)))"
      using ih u by simp
    have l: "fst (appendFields bs b (f # fs)) = fst (appendFields bs1 b1 fs)"
      by (simp add: f a)
    have st: "stream (f # fs) = bits_of d n @ stream fs" by (simp add: f)
    show ?thesis
    proof (cases "p < unat b + n")
      case True
      have "(bits_of d n @ stream fs) ! (p - unat b) = bit d (p - unat b)" if "unat b \<le> p"
      proof -
        have "p - unat b < n" using that True by linarith
        then show ?thesis by (simp add: nth_append)
      qed
      then show ?thesis unfolding l st ih2 w[of p] using True by auto
    next
      case False
      then have "\<not> p - unat b < n" "p - unat b - n = p - (unat b + n)" by linarith+
      then have "(bits_of d n @ stream fs) ! (p - unat b) = stream fs ! (p - (unat b + n))"
        by (simp add: nth_append)
      then show ?thesis unfolding l st ih2 w[of p] using False by auto
    qed
  qed
  show ?case using 1 2 by blast
qed

lemma fields_written:
  assumes "fits fs" and "unat b + length (stream fs) < 2 ^ 64"
  shows "snd (appendFields bs b fs) = b + of_nat (length (stream fs))"
    and "gbit (fst (appendFields bs b fs)) p \<longleftrightarrow>
           gbit bs p \<or> (unat b \<le> p \<and> p < unat b + length (stream fs) \<and> stream fs ! (p - unat b))"
  using fields_written_aux[OF assms] by blast+

lemma int_fields_fits: "fits (int_fields dd)"
proof -
  obtain pre plen pay w where d: "dd_code dd = (pre, plen, pay, w)" by (metis prod_cases4)
  show ?thesis using dd_code_props[OF d] by (simp add: int_fields_def d)
qed

lemma int_fields_len_bounds: "2 \<le> length (stream (int_fields dd)) + 1" "length (stream (int_fields dd)) \<le> 70"
proof -
  obtain pre plen pay w where d: "dd_code dd = (pre, plen, pay, w)" by (metis prod_cases4)
  show "2 \<le> length (stream (int_fields dd)) + 1" "length (stream (int_fields dd)) \<le> 70"
    using dd_code_props[OF d] by (simp_all add: int_fields_def d)
qed

lemma appendInteger_fields:
  "appendInteger chunk timestamp =
     (if timestamp < prevTimestamp chunk then None
      else
        (let curDelta = timestamp - prevTimestamp chunk;
             fs = int_fields (curDelta - prevTimestampDelta chunk)
         in if \<not> isSpaceAvailable chunk (length (stream fs) + 1) then Some (CR_ERR, chunk)
            else
              Some (CR_OK, chunk\<lparr>data := fst (appendFields (data chunk) (idx chunk) fs),
                                 idx := snd (appendFields (data chunk) (idx chunk) fs),
                                 prevTimestampDelta := curDelta,
                                 prevTimestamp := timestamp\<rparr>)))"
proof -
  obtain pre plen pay w where
    d: "dd_code (timestamp - prevTimestamp chunk - prevTimestampDelta chunk) = (pre, plen, pay, w)"
    by (metis prod_cases4)
  obtain bs1 b1 where a1: "appendBits (data chunk) (idx chunk) pre plen = (bs1, b1)" by force
  obtain bs2 b2 where a2: "appendBits bs1 b1 pay w = (bs2, b2)" by force
  show ?thesis by (simp add: appendInteger_alt Let_def int_fields_def d a1 a2)
qed

lemma take_bit_of_nat_small:
  assumes "n < 2 ^ k" "k \<le> 64"
  shows "take_bit k (of_nat n :: u64) = of_nat n"
proof -
  have "take_bit k (of_nat n :: u64) = of_nat (take_bit k n)"
    by (simp add: of_nat_take_bit [symmetric] take_bit_of_nat)
  also have "take_bit k n = n" using assms(1) by (simp add: take_bit_nat_eq_self)
  finally show ?thesis .
qed

lemma float_fields_fits:
  assumes "unat (prevLeading chunk) + unat (prevTrailing chunk) \<le> 64"
  shows "fits (float_fields chunk x)"
proof (cases "x = 0")
  case True
  then show ?thesis by (simp add: float_fields_def)
next
  case False
  have s: "xor_leading x + TrailingZeros64 x \<le> 63" using False by (rule xor_window_sum)
  show ?thesis
  proof (cases "use_prev_window chunk x")
    case True
    have "take_bit (64 - unat (prevLeading chunk) - unat (prevTrailing chunk))
           (drop_bit (unat (prevTrailing chunk)) x) = drop_bit (unat (prevTrailing chunk)) x"
      using True xor_leading_le(1)[of x] assms
      by (intro window_fits(1)) (auto simp: use_prev_window_def)
    then show ?thesis using False True by (simp add: float_fields_def)
  next
    case F: False
    have 1: "take_bit (64 - xor_leading x - TrailingZeros64 x) (drop_bit (TrailingZeros64 x) x)
         = drop_bit (TrailingZeros64 x) x"
      using xor_leading_le(1)[of x] s by (intro window_fits(1)) auto
    have 2: "take_bit 5 (of_nat (xor_leading x) :: u64) = of_nat (xor_leading x)"
      using xor_leading_le(2)[of x] by (intro take_bit_of_nat_small) auto
    have "(of_nat (64 - xor_leading x - TrailingZeros64 x) :: u64) - 1
        = of_nat (64 - xor_leading x - TrailingZeros64 x - 1)"
      using s by (simp add: of_nat_diff)
    moreover have "take_bit 6 (of_nat (64 - xor_leading x - TrailingZeros64 x - 1) :: u64)
        = of_nat (64 - xor_leading x - TrailingZeros64 x - 1)"
      by (intro take_bit_of_nat_small) auto
    ultimately have 3: "take_bit 6 ((of_nat (64 - xor_leading x - TrailingZeros64 x) :: u64) - 1)
        = of_nat (64 - xor_leading x - TrailingZeros64 x) - 1" by simp
    show ?thesis using False F 1 2 3 by (simp add: float_fields_def)
  qed
qed

lemma float_fields_len:
  "length (stream (float_fields chunk x)) =
     (if x = 0 then 1
      else if use_prev_window chunk x then 2 + (64 - unat (prevLeading chunk) - unat (prevTrailing chunk))
      else 13 + (64 - xor_leading x - TrailingZeros64 x))"
  by (simp add: float_fields_def)

lemma appendFloat_fields:
  "appendFloat chunk v =
     (let x = v XOR prevValue chunk; fs = float_fields chunk x
      in if x = 0 then
           Some (CR_OK, chunk\<lparr>data := fst (appendFields (data chunk) (idx chunk) fs),
                              idx := snd (appendFields (data chunk) (idx chunk) fs)\<rparr>)
         else if \<not> unat (prevLeading chunk) + unat (prevTrailing chunk) \<le> 64 then None
         else
           (let chunk0 = chunk\<lparr>data := fst (appendFields (data chunk) (idx chunk) [(1, 1)]),
                                idx := snd (appendFields (data chunk) (idx chunk) [(1, 1)])\<rparr>
            in if \<not> isSpaceAvailable chunk0 (length (stream fs) - 1) then Some (CR_ERR, chunk0)
               else if use_prev_window chunk x then
                 Some (CR_OK, chunk\<lparr>data := fst (appendFields (data chunk) (idx chunk) fs),
                                    idx := snd (appendFields (data chunk) (idx chunk) fs),
                                    prevValue := v\<rparr>)
               else
                 Some (CR_OK, chunk\<lparr>data := fst (appendFields (data chunk) (idx chunk) fs),
                                    idx := snd (appendFields (data chunk) (idx chunk) fs),
                                    prevLeading := of_nat (xor_leading x),
                                    prevTrailing := of_nat (TrailingZeros64 x),
                                    prevValue := v\<rparr>)))"
  by (simp add: appendFloat_alt Let_def split_def float_fields_def use_prev_window_def appendBits_snd
       add.assoc add.commute)

lemma fields_cursor:
  assumes "fits fs" and "unat b + length (stream fs) < 2 ^ 64"
  shows "snd (appendFields bs b fs) = b + of_nat (length (stream fs))"
    and "unat (snd (appendFields bs b fs)) = unat b + length (stream fs)"
  using fields_written(1)[OF assms] unat_cursor[OF assms(2)] by simp_all

lemma fields_frame:
  assumes "fits fs" and "unat b + length (stream fs) < 2 ^ 64"
    and "p < unat b \<or> unat b + length (stream fs) \<le> p"
  shows "gbit (fst (appendFields bs b fs)) p = gbit bs p"
  using fields_written(2)[OF assms(1,2), of bs p] assms(3) by auto

lemma fields_mono:
  assumes "fits fs" and "unat b + length (stream fs) < 2 ^ 64" and "gbit bs p"
  shows "gbit (fst (appendFields bs b fs)) p"
  using fields_written(2)[OF assms(1,2), of bs p] assms(3) by auto

lemma fields_fresh:
  assumes "fits fs" and "unat b + length (stream fs) < 2 ^ 64"
    and "zero_from bs (unat b)" and "i < length (stream fs)"
  shows "gbit (fst (appendFields bs b fs)) (unat b + i) = stream fs ! i"
  using fields_written(2)[OF assms(1,2), of bs "unat b + i"] assms(3,4)
  by (auto simp: zero_from_def)

lemma fields_zero_from:
  assumes "fits fs" and "unat b + length (stream fs) < 2 ^ 64" and "zero_from bs (unat b)"
  shows "zero_from (fst (appendFields bs b fs)) (unat b + length (stream fs))"
  unfolding zero_from_def
proof (intro allI impI)
  fix p assume p: "unat b + length (stream fs) \<le> p"
  then have "gbit (fst (appendFields bs b fs)) p = gbit bs p"
    using assms(1,2) by (intro fields_frame) auto
  moreover have "\<not> gbit bs p" using assms(3) p by (simp add: zero_from_def)
  ultimately show "\<not> gbit (fst (appendFields bs b fs)) p" by simp
qed

lemma appendInteger_OK_fields:
  assumes ok: "appendInteger chunk t = Some (CR_OK, c1)" and ib: "idx_in_bounds chunk"
  defines "fs \<equiv> int_fields (t - prevTimestamp chunk - prevTimestampDelta chunk)"
  shows "c1 = chunk\<lparr>data := fst (appendFields (data chunk) (idx chunk) fs),
                    idx := idx chunk + of_nat (length (stream fs)),
                    prevTimestampDelta := t - prevTimestamp chunk,
                    prevTimestamp := t\<rparr>"
    and "unat (idx c1) = unat (idx chunk) + length (stream fs)"
    and "unat (idx chunk) + length (stream fs) + 1 \<le> unat (base_size chunk * 8)"
    and "prevTimestamp chunk \<le> t"
proof -
  have nlt: "\<not> t < prevTimestamp chunk" and sp: "isSpaceAvailable chunk (length (stream fs) + 1)"
    and c1: "c1 = chunk\<lparr>data := fst (appendFields (data chunk) (idx chunk) fs),
                                 idx := snd (appendFields (data chunk) (idx chunk) fs),
                                 prevTimestampDelta := t - prevTimestamp chunk,
                                 prevTimestamp := t\<rparr>"
    using ok unfolding fs_def by (auto simp: appendInteger_fields Let_def split: if_splits)
  have small: "length (stream fs) + 1 < 256"
    using int_fields_len_bounds(2)[of "t - prevTimestamp chunk - prevTimestampDelta chunk"]
    by (simp add: fs_def)
  have room: "unat (idx chunk) + (length (stream fs) + 1) \<le> unat (base_size chunk * 8)"
    using ib sp small by (rule space_unat)
  then have lt: "unat (idx chunk) + length (stream fs) < 2 ^ 64"
    using unat_lt_2p64[of "base_size chunk * 8"] by linarith
  have f: "fits fs" by (simp add: fs_def int_fields_fits)
  note cur = fields_cursor[OF f lt, of "data chunk"]
  show "c1 = chunk\<lparr>data := fst (appendFields (data chunk) (idx chunk) fs),
                    idx := idx chunk + of_nat (length (stream fs)),
                    prevTimestampDelta := t - prevTimestamp chunk,
                    prevTimestamp := t\<rparr>"
    using c1 cur(1) by simp
  show "unat (idx c1) = unat (idx chunk) + length (stream fs)"
    using c1 cur(2) by simp
  show "unat (idx chunk) + length (stream fs) + 1 \<le> unat (base_size chunk * 8)"
    using room by simp
  show "prevTimestamp chunk \<le> t" using nlt by (simp add: not_less)
qed

lemma appendInteger_ERR_same: "appendInteger chunk t = Some (r, c1) \<Longrightarrow> r \<noteq> CR_OK \<Longrightarrow> c1 = chunk"
  by (auto simp: appendInteger_fields Let_def split: if_splits)

lemma appendFloat_ERR:
  assumes "appendFloat c1 v = Some (r, c2)" and "r \<noteq> CR_OK"
  shows "c2 = c1\<lparr>data := fst (appendFields (data c1) (idx c1) [(1, 1)]), idx := idx c1 + 1\<rparr>"
    and "v XOR prevValue c1 \<noteq> 0"
    and "r = CR_ERR"
  using assms
  by (auto simp: appendFloat_fields Let_def split_def appendBits_snd split: if_splits)

lemma one_bit_field:
  fixes b :: u64
  assumes "unat b + 1 < 2 ^ 64"
  shows "unat (b + 1) = unat b + 1"
    and "p < unat b \<or> unat b + 1 \<le> p \<Longrightarrow> gbit (fst (appendFields bs b [(d, 1)])) p = gbit bs p"
    and "gbit bs p \<Longrightarrow> gbit (fst (appendFields bs b [(d, 1)])) p"
proof -
  show "unat (b + 1) = unat b + 1" using unat_cursor[of b 1] assms by simp
  have n: "(1::nat) \<le> 64" by simp
  have a: "appendBits bs b d 1 = (fst (appendFields bs b [(d, 1)]), b + of_nat 1)"
    by (simp add: prod_eq_iff appendBits_snd split_def)
  note g = appendBits_gbit[OF n, of bs b d p]
  have e: "fst (appendFields bs b [(d, 1)]) = fst (appendBits bs b d 1)" by (simp add: split_def)
  have le: "(if 1 \<le> 64 - unat b mod 64 then 1 else 64) = (1::nat)" by simp
  show "p < unat b \<or> unat b + 1 \<le> p \<Longrightarrow> gbit (fst (appendFields bs b [(d, 1)])) p = gbit bs p"
    unfolding e g le by auto
  show "gbit bs p \<Longrightarrow> gbit (fst (appendFields bs b [(d, 1)])) p"
    unfolding e g by auto
qed

section \<open>End of chunk\<close>

lemma Compressed_Append_END_cases:
  assumes "Compressed_Append chunk t v = Some (CR_END, chunk')"
  obtains (int) r1 where "appendInteger chunk t = Some (r1, chunk)" "r1 \<noteq> CR_OK" "chunk' = chunk"
  | (float) c1 where "appendInteger chunk t = Some (CR_OK, c1)"
      "v XOR prevValue c1 \<noteq> 0"
      "chunk' = c1\<lparr>data := fst (appendFields (data c1) (idx c1) [(1, 1)]),
                    idx := idx chunk, prevTimestamp := prevTimestamp chunk,
                    prevTimestampDelta := prevTimestampDelta chunk\<rparr>"
proof -
  have ns: "base_numSamples chunk \<noteq> 0"
    using assms by (auto simp: Compressed_Append_def)
  obtain r1 c1 where ai: "appendInteger chunk t = Some (r1, c1)"
    using assms ns by (auto simp: Compressed_Append_def Let_def split: option.splits)
  show ?thesis
  proof (cases "r1 = CR_OK")
    case False
    have c1: "c1 = chunk" using ai False by (rule appendInteger_ERR_same)
    have "chunk' = chunk" using assms ns ai False c1 by (simp add: Compressed_Append_def)
    then show ?thesis using int ai False c1 by simp
  next
    case True
    obtain r2 c2 where af: "appendFloat c1 v = Some (r2, c2)"
      using assms ns ai True by (auto simp: Compressed_Append_def Let_def split: option.splits)
    have r2: "r2 \<noteq> CR_OK" using assms ns ai True af
      by (auto simp: Compressed_Append_def Let_def)
    note e = appendFloat_ERR[OF af r2]
    have "chunk' = c2\<lparr>idx := idx chunk, prevTimestamp := prevTimestamp chunk,
                    prevTimestampDelta := prevTimestampDelta chunk\<rparr>"
      using assms ns ai True af r2 by (simp add: Compressed_Append_def Let_def)
    then have "chunk' = c1\<lparr>data := fst (appendFields (data c1) (idx c1) [(1, 1)]),
                    idx := idx chunk, prevTimestamp := prevTimestamp chunk,
                    prevTimestampDelta := prevTimestampDelta chunk\<rparr>"
      by (simp add: e(1))
    then show ?thesis using float ai True e(2) by simp
  qed
qed

text \<open>
  C2. When \<^verbatim>\<open>Compressed_Append\<close> returns \<^verbatim>\<open>CR_END\<close> on a chunk whose cursor is within its
  capacity, \<open>numSamples\<close>, \<open>idx\<close>, \<open>prevTimestamp\<close>, \<open>prevTimestampDelta\<close>, \<open>prevValue\<close>,
  \<open>prevLeading\<close>, \<open>prevTrailing\<close> and the bits of the buffer below \<open>idx\<close> are what they were
  before the call.
\<close>

theorem C2_CR_END_leaves_state:
  assumes "Compressed_Append chunk t v = Some (CR_END, chunk')" and "idx_in_bounds chunk"
  shows "base_numSamples chunk' = base_numSamples chunk \<and> idx chunk' = idx chunk \<and>
         prevTimestamp chunk' = prevTimestamp chunk \<and>
         prevTimestampDelta chunk' = prevTimestampDelta chunk \<and>
         prevValue chunk' = prevValue chunk \<and> prevLeading chunk' = prevLeading chunk \<and>
         prevTrailing chunk' = prevTrailing chunk \<and>
         (\<forall>p<unat (idx chunk). gbit (data chunk') p = gbit (data chunk) p)"
  using assms(1)
proof (cases rule: Compressed_Append_END_cases)
  case (int r1)
  then show ?thesis by simp
next
  case (float c1)
  define fs where "fs = int_fields (t - prevTimestamp chunk - prevTimestampDelta chunk)"
  note i = appendInteger_OK_fields[OF float(1) assms(2), folded fs_def]
  have f: "fits fs" by (simp add: fs_def int_fields_fits)
  have lt: "unat (idx chunk) + length (stream fs) < 2 ^ 64"
    using i(3) unat_lt_2p64[of "base_size chunk * 8"] by linarith
  have lt1: "unat (idx c1) + 1 < 2 ^ 64"
    using i(2,3) unat_lt_2p64[of "base_size chunk * 8"] by linarith
  have bits: "gbit (data chunk') p = gbit (data chunk) p" if "p < unat (idx chunk)" for p
  proof -
    have "gbit (data chunk') p = gbit (data c1) p"
      using one_bit_field(2)[OF lt1, of p "data c1" 1] that i(2) by (simp add: float(3))
    also have "\<dots> = gbit (data chunk) p"
      using fields_frame[OF f lt, of p "data chunk"] that by (simp add: i(1))
    finally show ?thesis .
  qed
  have flds: "base_numSamples c1 = base_numSamples chunk" "prevValue c1 = prevValue chunk"
    "prevLeading c1 = prevLeading chunk" "prevTrailing c1 = prevTrailing chunk"
    by (simp_all add: i(1))
  show ?thesis using bits flds by (simp add: float(3))
qed

text \<open>
  What a call that returns \<^verbatim>\<open>CR_END\<close> leaves in the buffer: nothing new when the space check
  of \<^verbatim>\<open>appendInteger\<close> failed; when it is the space check of \<^verbatim>\<open>appendFloat\<close> that failed, the
  bits \<^verbatim>\<open>appendInteger\<close> wrote and the flag bit 1 of the value after them. The cursor is
  restored, the buffer is not.
\<close>

lemma Compressed_Append_END_data:
  assumes "Compressed_Append chunk t v = Some (CR_END, chunk')" and "idx_in_bounds chunk"
  shows "(\<forall>p<unat (idx chunk). gbit (data chunk') p = gbit (data chunk) p) \<and>
         (\<forall>p. gbit (data chunk) p \<longrightarrow> gbit (data chunk') p) \<and>
         data chunk' =
           (case appendInteger chunk t of
              Some (CR_OK, c1) \<Rightarrow> fst (appendBits (data c1) (idx c1) 1 1)
            | _ \<Rightarrow> data chunk)"
  using assms(1)
proof (cases rule: Compressed_Append_END_cases)
  case (int r1)
  then show ?thesis by (cases r1) simp_all
next
  case (float c1)
  define fs where "fs = int_fields (t - prevTimestamp chunk - prevTimestampDelta chunk)"
  note i = appendInteger_OK_fields[OF float(1) assms(2), folded fs_def]
  have f: "fits fs" by (simp add: fs_def int_fields_fits)
  have lt: "unat (idx chunk) + length (stream fs) < 2 ^ 64"
    using i(3) unat_lt_2p64[of "base_size chunk * 8"] by linarith
  have lt1: "unat (idx c1) + 1 < 2 ^ 64"
    using i(2,3) unat_lt_2p64[of "base_size chunk * 8"] by linarith
  have bits: "gbit (data chunk') p = gbit (data chunk) p" if "p < unat (idx chunk)" for p
  proof -
    have "gbit (data chunk') p = gbit (data c1) p"
      using one_bit_field(2)[OF lt1, of p "data c1" 1] that i(2) by (simp add: float(3))
    also have "\<dots> = gbit (data chunk) p"
      using fields_frame[OF f lt, of p "data chunk"] that by (simp add: i(1))
    finally show ?thesis .
  qed
  have mono: "gbit (data chunk') p" if "gbit (data chunk) p" for p
  proof -
    have "gbit (data c1) p" using fields_mono[OF f lt that] by (simp add: i(1))
    then show ?thesis using one_bit_field(3)[OF lt1, of "data c1" p 1] by (simp add: float(3))
  qed
  have "data chunk' = fst (appendBits (data c1) (idx c1) 1 1)"
    by (simp add: float(3) split_def)
  then show ?thesis using bits mono float(1) by simp
qed

lemma zeros_of_one_double:
  "LeadingZeros64 0x3FF0000000000000 = 2" "TrailingZeros64 0x3FF0000000000000 = 52"
  by code_simp+

lemma two_sample_chunk_appended:
  "append_all (zero_chunk 2) [(0, 0), (1, 0)] = Some two_sample_chunk"
  by (simp add: two_sample_chunk_def eval_defs word_sle_eq)

lemma two_sample_chunk_third:
  "Compressed_Append two_sample_chunk 3 0x3FF0000000000000 = Some (CR_END, two_sample_chunk_END)"
  by (simp add: two_sample_chunk_def two_sample_chunk_END_def eval_defs zeros_of_one_double word_sle_eq)

lemma two_sample_chunk_bounds: "idx_in_bounds two_sample_chunk"
  by (simp add: idx_in_bounds_def two_sample_chunk_def zero_chunk_def)

text \<open>The theorem of C2 at the 2-byte chunk whose third append runs out of room.\<close>

theorem C2_witness:
  "Compressed_Append two_sample_chunk 3 0x3FF0000000000000 = Some (CR_END, two_sample_chunk_END) \<and>
   idx_in_bounds two_sample_chunk \<and>
   base_numSamples two_sample_chunk_END = base_numSamples two_sample_chunk \<and>
   idx two_sample_chunk_END = idx two_sample_chunk \<and>
   prevTimestamp two_sample_chunk_END = prevTimestamp two_sample_chunk \<and>
   prevTimestampDelta two_sample_chunk_END = prevTimestampDelta two_sample_chunk \<and>
   prevValue two_sample_chunk_END = prevValue two_sample_chunk \<and>
   prevLeading two_sample_chunk_END = prevLeading two_sample_chunk \<and>
   prevTrailing two_sample_chunk_END = prevTrailing two_sample_chunk \<and>
   gbit (data two_sample_chunk_END) 2 = gbit (data two_sample_chunk) 2"
proof -
  note t = C2_CR_END_leaves_state[OF two_sample_chunk_third two_sample_chunk_bounds]
  have "(2::nat) < unat (idx two_sample_chunk)"
    by (simp add: two_sample_chunk_def zero_chunk_def)
  with t have "gbit (data two_sample_chunk_END) 2 = gbit (data two_sample_chunk) 2" by blast
  with t two_sample_chunk_third two_sample_chunk_bounds show ?thesis by blast
qed

text \<open>
  C3. A chunk of 2 bytes holds \<open>(0, 0.0)\<close> and \<open>(1, 0.0)\<close>, its cursor at bit 8. The call for
  \<open>(3, 1.0)\<close> returns \<^verbatim>\<open>CR_END\<close> and restores the cursor, after \<^verbatim>\<open>appendInteger\<close> has written its
  7 bits and \<^verbatim>\<open>appendFloat\<close> its flag bit: bin 0 goes from 5 to 34053, and bits 8 and 15, at and
  beyond the cursor, are set.
\<close>

theorem C3_failed_append_failing_input:
  "append_all (zero_chunk 2) [(0, 0), (1, 0)] = Some two_sample_chunk \<and>
   Compressed_Append two_sample_chunk 3 0x3FF0000000000000 = Some (CR_END, two_sample_chunk_END) \<and>
   idx two_sample_chunk = 8 \<and> idx two_sample_chunk_END = 8 \<and>
   data two_sample_chunk 0 = 5 \<and> data two_sample_chunk_END 0 = 34053 \<and>
   \<not> gbit (data two_sample_chunk) 8 \<and> gbit (data two_sample_chunk_END) 8 \<and>
   \<not> gbit (data two_sample_chunk) 15 \<and> gbit (data two_sample_chunk_END) 15"
  using two_sample_chunk_third two_sample_chunk_appended
  by (simp add: two_sample_chunk_def two_sample_chunk_END_def zero_chunk_def gbit_def)

text \<open>
  The bits left behind are not cleared, and \<^verbatim>\<open>appendBits\<close> only ORs: the next call, for
  \<open>(2, 0.0)\<close>, returns \<^verbatim>\<open>CR_OK\<close>, and the chunk reads back as \<open>(0, 0.0)\<close>, \<open>(1, 0.0)\<close>, \<open>(3, 0.0)\<close>.
\<close>

lemma two_sample_chunk_fourth:
  "Compressed_Append two_sample_chunk_END 2 0 = Some (CR_OK, two_sample_chunk_next)"
  by (simp add: two_sample_chunk_next_def two_sample_chunk_def two_sample_chunk_END_def eval_defs word_sle_eq)

lemma two_sample_chunk_next_read:
  "map_option fst (read_n two_sample_chunk_next (Compressed_NewChunkIterator two_sample_chunk_next)
       (length [(0::u64, 0::u64), (1, 0), (2, 0)])) = Some [(0, 0), (1, 0), (3, 0)]"
  by (simp add: two_sample_chunk_next_def two_sample_chunk_def two_sample_chunk_END_def eval_defs word_sle_eq)

section \<open>The choice of the window\<close>

lemma xor_eq_0_iff: "(a :: u64) XOR b = 0 \<longleftrightarrow> a = b"
proof
  assume "a XOR b = 0"
  then have "(a XOR b) XOR b = b" by simp
  then show "a = b" by (simp add: xor.assoc)
qed simp

lemma appendFloat_OK_fields:
  assumes ok: "appendFloat c1 v = Some (CR_OK, c2)"
    and room1: "unat (idx c1) + 1 \<le> unat (base_size c1 * 8)"
  defines "x \<equiv> v XOR prevValue c1"
  defines "fs \<equiv> float_fields c1 x"
  shows "fits fs"
    and "unat (idx c1) + length (stream fs) \<le> unat (base_size c1 * 8)"
    and "c2 = c1\<lparr>data := fst (appendFields (data c1) (idx c1) fs),
                  idx := idx c1 + of_nat (length (stream fs)),
                  prevLeading := (if x = 0 \<or> use_prev_window c1 x then prevLeading c1
                                  else of_nat (xor_leading x)),
                  prevTrailing := (if x = 0 \<or> use_prev_window c1 x then prevTrailing c1
                                   else of_nat (TrailingZeros64 x)),
                  prevValue := v\<rparr>"
    and "unat (idx c2) = unat (idx c1) + length (stream fs)"
    and "x \<noteq> 0 \<Longrightarrow> unat (prevLeading c1) + unat (prevTrailing c1) \<le> 64"
proof -
  have lt1: "unat (idx c1) + 1 < 2 ^ 64"
    using room1 unat_lt_2p64[of "base_size c1 * 8"] by linarith
  have fits_room: "fits fs \<and> unat (idx c1) + length (stream fs) \<le> unat (base_size c1 * 8)
      \<and> (x \<noteq> 0 \<longrightarrow> unat (prevLeading c1) + unat (prevTrailing c1) \<le> 64)"
  proof (cases "x = 0")
    case True
    then show ?thesis using room1 by (simp add: fs_def float_fields_def)
  next
    case False
    have w: "unat (prevLeading c1) + unat (prevTrailing c1) \<le> 64"
      using ok False by (auto simp: appendFloat_fields Let_def x_def split: if_splits)
    define chunk0 where "chunk0 = c1\<lparr>data := fst (appendFields (data c1) (idx c1) [(1, 1)]),
                                idx := snd (appendFields (data c1) (idx c1) [(1, 1)])\<rparr>"
    have sp: "isSpaceAvailable chunk0 (length (stream fs) - 1)"
      using ok False w unfolding chunk0_def fs_def x_def
      by (auto simp: appendFloat_fields Let_def split: if_splits)
    have i0: "idx chunk0 = idx c1 + 1" by (simp add: chunk0_def split_def appendBits_snd)
    then have u0: "unat (idx chunk0) = unat (idx c1) + 1" using one_bit_field(1)[OF lt1] by simp
    have ib: "idx_in_bounds chunk0"
      using u0 room1 by (simp add: idx_in_bounds_def word_le_nat_alt chunk0_def)
    have s: "xor_leading x + TrailingZeros64 x \<le> 63" using False by (rule xor_window_sum)
    have len: "length (stream fs) - 1 < 256" "1 \<le> length (stream fs)"
      using False s by (auto simp: fs_def float_fields_len)
    have "unat (idx chunk0) + (length (stream fs) - 1) \<le> unat (base_size chunk0 * 8)"
      using ib sp len(1) by (rule space_unat)
    then have "unat (idx c1) + length (stream fs) \<le> unat (base_size c1 * 8)"
      using u0 len(2) by (simp add: chunk0_def)
    moreover have "fits fs" unfolding fs_def using w by (rule float_fields_fits)
    ultimately show ?thesis using w by simp
  qed
  then show f: "fits fs" and r: "unat (idx c1) + length (stream fs) \<le> unat (base_size c1 * 8)"
    and "x \<noteq> 0 \<Longrightarrow> unat (prevLeading c1) + unat (prevTrailing c1) \<le> 64"
    by simp_all
  have lt: "unat (idx c1) + length (stream fs) < 2 ^ 64"
    using r unat_lt_2p64[of "base_size c1 * 8"] by linarith
  note cur = fields_cursor[OF f lt, of "data c1"]
  have c2': "c2 = c1\<lparr>data := fst (appendFields (data c1) (idx c1) fs),
                  idx := snd (appendFields (data c1) (idx c1) fs),
                  prevLeading := (if x = 0 \<or> use_prev_window c1 x then prevLeading c1
                                  else of_nat (xor_leading x)),
                  prevTrailing := (if x = 0 \<or> use_prev_window c1 x then prevTrailing c1
                                   else of_nat (TrailingZeros64 x)),
                  prevValue := v\<rparr>"
  proof (cases "x = 0")
    case True
    then have "v = prevValue c1" by (simp add: x_def xor_eq_0_iff)
    then show ?thesis using ok True unfolding fs_def x_def
      by (auto simp: appendFloat_fields Let_def split: if_splits)
  next
    case False
    then show ?thesis using ok unfolding fs_def x_def
      by (auto simp: appendFloat_fields Let_def split: if_splits)
  qed
  show "c2 = c1\<lparr>data := fst (appendFields (data c1) (idx c1) fs),
                  idx := idx c1 + of_nat (length (stream fs)),
                  prevLeading := (if x = 0 \<or> use_prev_window c1 x then prevLeading c1
                                  else of_nat (xor_leading x)),
                  prevTrailing := (if x = 0 \<or> use_prev_window c1 x then prevTrailing c1
                                   else of_nat (TrailingZeros64 x)),
                  prevValue := v\<rparr>"
    using c2' cur(1) by simp
  show "unat (idx c2) = unat (idx c1) + length (stream fs)"
    using c2' cur(2) by simp
qed

lemma bits_of_1: "bits_of d (Suc 0) = [bit d 0]"
  by (simp add: bits_of_def)

lemma float_fields_control:
  "x \<noteq> 0 \<Longrightarrow> stream (float_fields chunk x) ! Suc 0 \<longleftrightarrow> \<not> use_prev_window chunk x"
  by (simp add: float_fields_def bits_of_1)

text \<open>
  C5, amended. For a successful \<^verbatim>\<open>appendFloat\<close> whose XOR \<open>x\<close> with the previous value is not 0,
  at a cursor with room for the flag bit and with the bit after it still 0, the control bit
  written after the flag tells the branch: 0 for reuse, 1 for a new window. With \<open>l\<close> the
  leading zeros of \<open>x\<close> clamped to 31 and \<open>t\<close> its trailing zeros, the encoder reuses the
  previous window \<open>(pl, pt)\<close> exactly when it covers the XOR (\<open>pl \<le> l\<close>, \<open>pt \<le> t\<close>) and reusing
  it takes strictly fewer bits, \<open>1 + (64 - pl - pt)\<close> against \<open>1 + 5 + 6 + (64 - l - t)\<close>; at
  equal cost it emits a new window. \<open>prevLeading\<close> and \<open>prevTrailing\<close> are unchanged if and only
  if the reuse branch was taken, and the cursor moves by the flag bit and the bits of the
  branch taken.
\<close>

theorem C5_window_choice:
  assumes ok: "appendFloat chunk v = Some (CR_OK, chunk')"
    and nz: "v XOR prevValue chunk \<noteq> 0"
    and room: "idx chunk < base_size chunk * 8"
    and fresh: "\<not> gbit (data chunk) (unat (idx chunk) + 1)"
  shows "let x = v XOR prevValue chunk;
             l = xor_leading x; t = TrailingZeros64 x;
             pl = unat (prevLeading chunk); pt = unat (prevTrailing chunk);
             reused = (\<not> gbit (data chunk') (unat (idx chunk) + 1))
         in (reused \<longleftrightarrow> pl \<le> l \<and> pt \<le> t \<and> 1 + (64 - pl - pt) < 1 + 5 + 6 + (64 - l - t)) \<and>
            (prevLeading chunk' = prevLeading chunk \<and> prevTrailing chunk' = prevTrailing chunk
               \<longleftrightarrow> reused) \<and>
            unat (idx chunk') = unat (idx chunk) + 1 +
               (if reused then 1 + (64 - pl - pt) else 1 + 5 + 6 + (64 - l - t))"
proof -
  define x where "x = v XOR prevValue chunk"
  define fs where "fs = float_fields chunk x"
  have x: "x \<noteq> 0" using nz by (simp add: x_def)
  have room1: "unat (idx chunk) + 1 \<le> unat (base_size chunk * 8)"
    using room by (simp add: word_less_nat_alt)
  note f = appendFloat_OK_fields[OF ok room1, folded x_def, folded fs_def]
  have s: "xor_leading x + TrailingZeros64 x \<le> 63" using x by (rule xor_window_sum)
  have w: "unat (prevLeading chunk) + unat (prevTrailing chunk) \<le> 64" using f(5) x by simp
  have len: "length (stream fs) =
     (if use_prev_window chunk x then 2 + (64 - unat (prevLeading chunk) - unat (prevTrailing chunk))
      else 13 + (64 - xor_leading x - TrailingZeros64 x))"
    using x by (simp add: fs_def float_fields_len)
  have lt: "unat (idx chunk) + length (stream fs) < 2 ^ 64"
    using f(2) unat_lt_2p64[of "base_size chunk * 8"] by linarith
  have "gbit (data chunk') (unat (idx chunk) + 1) \<longleftrightarrow> stream fs ! 1"
    using fields_written(2)[OF f(1) lt, of "data chunk" "unat (idx chunk) + 1"] fresh len
    by (simp add: f(3))
  then have ctl: "gbit (data chunk') (unat (idx chunk) + 1) \<longleftrightarrow> \<not> use_prev_window chunk x"
    using x by (simp add: fs_def float_fields_control)
  have win: "prevLeading chunk' = prevLeading chunk \<and> prevTrailing chunk' = prevTrailing chunk
      \<longleftrightarrow> use_prev_window chunk x"
  proof (cases "use_prev_window chunk x")
    case True
    then show ?thesis by (simp add: f(3))
  next
    case False
    have "unat (of_nat (xor_leading x) :: u8) = xor_leading x"
      using xor_leading_le(2)[of x] by (simp add: unat_of_nat)
    moreover have "unat (of_nat (TrailingZeros64 x) :: u8) = TrailingZeros64 x"
      using s by (simp add: unat_of_nat)
    ultimately have "use_prev_window chunk x"
      if "prevLeading chunk = of_nat (xor_leading x)" "prevTrailing chunk = of_nat (TrailingZeros64 x)"
      using that s by (simp add: use_prev_window_def)
    then show ?thesis using False x by (auto simp: f(3))
  qed
  have upw: "use_prev_window chunk x \<longleftrightarrow>
      unat (prevLeading chunk) \<le> xor_leading x \<and> unat (prevTrailing chunk) \<le> TrailingZeros64 x \<and>
      1 + (64 - unat (prevLeading chunk) - unat (prevTrailing chunk))
        < 1 + 5 + 6 + (64 - xor_leading x - TrailingZeros64 x)"
    by (auto simp: use_prev_window_def)
  have ix: "unat (idx chunk') = unat (idx chunk) + 1 +
      (if use_prev_window chunk x then 1 + (64 - unat (prevLeading chunk) - unat (prevTrailing chunk))
       else 1 + 5 + 6 + (64 - xor_leading x - TrailingZeros64 x))"
    using f(4) len by simp
  have G: "(\<not> gbit (data chunk') (unat (idx chunk) + 1)) = use_prev_window chunk x"
    using ctl by simp
  show ?thesis
    unfolding Let_def x_def[symmetric] G
    by (intro conjI) (rule upw win ix)+
qed

lemma zeros_of_examples:
  "LeadingZeros64 0x001FFFFFFFFFFFFF = 11" "TrailingZeros64 0x001FFFFFFFFFFFFF = 0"
  "LeadingZeros64 0x3FF0000000000001 = 2" "TrailingZeros64 0x3FF0000000000001 = 0"
  by code_simp+

lemma one_zero_sample_chunk_appended:
  "Compressed_Append (zero_chunk 128) 0 0 = Some (CR_OK, one_zero_sample_chunk)"
  by (simp add: one_zero_sample_chunk_def zero_chunk_def Compressed_Append_def)

lemma new_window_example:
  "appendFloat one_zero_sample_chunk 0x001FFFFFFFFFFFFF = Some (CR_OK, new_window_result)"
  by (simp add: one_zero_sample_chunk_def new_window_result_def eval_defs zeros_of_examples fun_eq_iff)

lemma reuse_example:
  "appendFloat one_zero_sample_chunk 0x3FF0000000000001 = Some (CR_OK, reuse_result)"
  by (simp add: one_zero_sample_chunk_def reuse_result_def eval_defs zeros_of_examples)

text \<open>
  C5, as stated, fails: with the window \<open>(0, 0)\<close> of a zero-initialized chunk and an XOR with 11
  leading and 0 trailing zeros, reusing the window would take \<open>1 + 64\<close> bits, no more than the
  \<open>1 + 5 + 6 + 53\<close> of a new window, yet the encoder emits a new window (control bit 1) and
  sets \<open>prevLeading\<close> to 11.
\<close>

theorem C5_counterexample:
  "appendFloat one_zero_sample_chunk 0x001FFFFFFFFFFFFF = Some (CR_OK, new_window_result) \<and>
   0x001FFFFFFFFFFFFF XOR prevValue one_zero_sample_chunk \<noteq> 0 \<and>
   unat (prevLeading one_zero_sample_chunk) \<le> xor_leading 0x001FFFFFFFFFFFFF \<and>
   unat (prevTrailing one_zero_sample_chunk) \<le> TrailingZeros64 0x001FFFFFFFFFFFFF \<and>
   1 + (64 - unat (prevLeading one_zero_sample_chunk) - unat (prevTrailing one_zero_sample_chunk))
     \<le> 1 + 5 + 6 + (64 - xor_leading 0x001FFFFFFFFFFFFF - TrailingZeros64 0x001FFFFFFFFFFFFF) \<and>
   gbit (data new_window_result) 1 \<and>
   prevLeading new_window_result \<noteq> prevLeading one_zero_sample_chunk \<and>
   unat (idx new_window_result) = unat (idx one_zero_sample_chunk) + 1 + 1 + 5 + 6 + 53"
  using new_window_example
  by (simp add: one_zero_sample_chunk_def new_window_result_def zero_chunk_def xor_leading_def
      zeros_of_examples gbit_def)

text \<open>
  The theorem of C5 at an XOR with 2 leading and 0 trailing zeros on the same chunk: the
  window \<open>(0, 0)\<close> is reused, 65 bits against 74.
\<close>

theorem C5_witness:
  "appendFloat one_zero_sample_chunk 0x3FF0000000000001 = Some (CR_OK, reuse_result) \<and>
   0x3FF0000000000001 XOR prevValue one_zero_sample_chunk \<noteq> 0 \<and>
   idx one_zero_sample_chunk < base_size one_zero_sample_chunk * 8 \<and>
   \<not> gbit (data one_zero_sample_chunk) (unat (idx one_zero_sample_chunk) + 1) \<and>
   \<not> gbit (data reuse_result) (unat (idx one_zero_sample_chunk) + 1) \<and>
   prevLeading reuse_result = prevLeading one_zero_sample_chunk \<and>
   prevTrailing reuse_result = prevTrailing one_zero_sample_chunk \<and>
   unat (idx reuse_result) = unat (idx one_zero_sample_chunk) + 1 + 1 + 64"
proof -
  have nz: "0x3FF0000000000001 XOR prevValue one_zero_sample_chunk \<noteq> 0"
    by (simp add: one_zero_sample_chunk_def zero_chunk_def)
  have room: "idx one_zero_sample_chunk < base_size one_zero_sample_chunk * 8"
    by (simp add: one_zero_sample_chunk_def zero_chunk_def)
  have fresh: "\<not> gbit (data one_zero_sample_chunk) (unat (idx one_zero_sample_chunk) + 1)"
    by (simp add: one_zero_sample_chunk_def zero_chunk_def gbit_def)
  have r: "\<not> gbit (data reuse_result) (unat (idx one_zero_sample_chunk) + 1)"
    by (simp add: one_zero_sample_chunk_def zero_chunk_def reuse_result_def gbit_def)
  note t = C5_window_choice[OF reuse_example nz room fresh, unfolded Let_def]
  have w: "prevLeading reuse_result = prevLeading one_zero_sample_chunk \<and>
   prevTrailing reuse_result = prevTrailing one_zero_sample_chunk" using t r by blast
  have "unat (idx reuse_result) = unat (idx one_zero_sample_chunk) + 1 + 1 + 64"
    using t r by (simp add: one_zero_sample_chunk_def zero_chunk_def)
  with reuse_example nz room fresh r w show ?thesis by blast
qed

section \<open>Writes stay within the buffer\<close>

lemma fields_changed:
  assumes "fits fs" and "unat b + length (stream fs) < 2 ^ 64"
    and "gbit (fst (appendFields bs b fs)) p \<noteq> gbit bs p"
  shows "unat b \<le> p \<and> p < unat b + length (stream fs)"
  using fields_written(2)[OF assms(1,2), of bs p] assms(3) by auto

lemma float_fields_nonempty: "1 \<le> length (stream (float_fields chunk x))"
  by (simp add: float_fields_len)

lemma appendInteger_reach_all:
  assumes ib: "idx_in_bounds chunk" and ai: "appendInteger chunk t = Some (r1, c1)"
  shows "unat (idx chunk) \<le> unat (idx c1) \<and> unat (idx c1) \<le> unat (base_size chunk * 8) \<and>
      (gbit (data c1) p \<noteq> gbit (data chunk) p \<longrightarrow> unat (idx chunk) \<le> p \<and> p < unat (idx c1)) \<and>
      (r1 = CR_OK \<longrightarrow> unat (idx c1) < unat (base_size chunk * 8)) \<and> base_size c1 = base_size chunk"
proof (cases "r1 = CR_OK")
  case False
  have ibn: "unat (idx chunk) \<le> unat (base_size chunk * 8)"
    using ib by (simp add: idx_in_bounds_def word_le_nat_alt)
  have "c1 = chunk" using ai False by (rule appendInteger_ERR_same)
  then show ?thesis using False ibn by simp
next
  case True
  define fs where "fs = int_fields (t - prevTimestamp chunk - prevTimestampDelta chunk)"
  note i = appendInteger_OK_fields[OF ai[unfolded True] ib, folded fs_def]
  have f: "fits fs" by (simp add: fs_def int_fields_fits)
  have lt: "unat (idx chunk) + length (stream fs) < 2 ^ 64"
    using i(3) unat_lt_2p64[of "base_size chunk * 8"] by linarith
  have d: "data c1 = fst (appendFields (data chunk) (idx chunk) fs)" by (subst i(1)) simp
  have ch: "gbit (data c1) p \<noteq> gbit (data chunk) p \<longrightarrow> unat (idx chunk) \<le> p \<and> p < unat (idx c1)"
    using fields_changed[OF f lt, of "data chunk" p] i(2) by (simp add: d)
  have bs: "base_size c1 = base_size chunk" by (subst i(1)) simp
  show ?thesis using i(2,3) ch bs by simp
qed

lemma appendInteger_reach:
  assumes ib: "idx_in_bounds chunk" and ai: "appendInteger chunk t = Some (r1, c1)"
  shows "unat (idx chunk) \<le> unat (idx c1)"
    and "unat (idx c1) \<le> unat (base_size chunk * 8)"
    and "gbit (data c1) p \<noteq> gbit (data chunk) p \<Longrightarrow> unat (idx chunk) \<le> p \<and> p < unat (idx c1)"
    and "r1 = CR_OK \<Longrightarrow> unat (idx c1) < unat (base_size chunk * 8)"
    and "base_size c1 = base_size chunk"
  using appendInteger_reach_all[OF assms, of p] by blast+

lemma appendFloat_reach_all:
  assumes room1: "unat (idx c1) < unat (base_size c1 * 8)" and af: "appendFloat c1 v = Some (r2, c2)"
  shows "unat (idx c1) < unat (idx c2) \<and> unat (idx c2) \<le> unat (base_size c1 * 8) \<and>
      (gbit (data c2) p \<noteq> gbit (data c1) p \<longrightarrow> unat (idx c1) \<le> p \<and> p < unat (idx c2)) \<and>
      base_size c2 = base_size c1"
proof (cases "r2 = CR_OK")
  case False
  have r1: "unat (idx c1) + 1 \<le> unat (base_size c1 * 8)" using room1 by simp
  have lt1: "unat (idx c1) + 1 < 2 ^ 64"
    using r1 unat_lt_2p64[of "base_size c1 * 8"] by linarith
  note e = appendFloat_ERR[OF af False]
  have u: "unat (idx c2) = unat (idx c1) + 1" using one_bit_field(1)[OF lt1] by (simp add: e(1))
  have d: "data c2 = fst (appendFields (data c1) (idx c1) [(1, 1)])" by (subst e(1)) simp
  have same: "gbit (data c2) p = gbit (data c1) p" if "p < unat (idx c1) \<or> unat (idx c1) + 1 \<le> p"
    unfolding d using lt1 that by (rule one_bit_field(2))
  have ch: "gbit (data c2) p \<noteq> gbit (data c1) p \<longrightarrow> unat (idx c1) \<le> p \<and> p < unat (idx c2)"
    using same u by (cases "p < unat (idx c1) \<or> unat (idx c1) + 1 \<le> p") auto
  have bs: "base_size c2 = base_size c1" by (subst e(1)) simp
  show ?thesis using u r1 ch bs by simp
next
  case True
  have r1: "unat (idx c1) + 1 \<le> unat (base_size c1 * 8)" using room1 by simp
  define fs where "fs = float_fields c1 (v XOR prevValue c1)"
  note f = appendFloat_OK_fields[OF af[unfolded True] r1, folded fs_def]
  have lt: "unat (idx c1) + length (stream fs) < 2 ^ 64"
    using f(2) unat_lt_2p64[of "base_size c1 * 8"] by linarith
  have ne: "1 \<le> length (stream fs)" unfolding fs_def by (rule float_fields_nonempty)
  have d: "data c2 = fst (appendFields (data c1) (idx c1) fs)" by (subst f(3)) simp
  have ch: "gbit (data c2) p \<noteq> gbit (data c1) p \<longrightarrow> unat (idx c1) \<le> p \<and> p < unat (idx c2)"
    using fields_changed[OF f(1) lt, of "data c1" p] f(4) by (simp add: d)
  have bs: "base_size c2 = base_size c1" by (subst f(3)) simp
  have "unat (idx c1) < unat (idx c2)" using f(4) ne by linarith
  moreover have "unat (idx c2) \<le> unat (base_size c1 * 8)" using f(2,4) by linarith
  ultimately show ?thesis using ch bs by blast
qed

lemma appendFloat_reach:
  assumes room1: "unat (idx c1) < unat (base_size c1 * 8)" and af: "appendFloat c1 v = Some (r2, c2)"
  shows "unat (idx c1) < unat (idx c2)"
    and "unat (idx c2) \<le> unat (base_size c1 * 8)"
    and "gbit (data c2) p \<noteq> gbit (data c1) p \<Longrightarrow> unat (idx c1) \<le> p \<and> p < unat (idx c2)"
    and "base_size c2 = base_size c1"
  using appendFloat_reach_all[OF assms, of p] by blast+

lemma Compressed_Append_in_bounds:
  assumes ib: "idx_in_bounds chunk" and ca: "Compressed_Append chunk t v = Some (r, chunk')"
  shows "idx_in_bounds chunk'"
proof (cases "base_numSamples chunk = 0")
  case True
  then show ?thesis using ib ca by (auto simp: Compressed_Append_def idx_in_bounds_def)
next
  case ns: False
  obtain r1 c1 where ai: "appendInteger chunk t = Some (r1, c1)"
    using ca ns by (auto simp: Compressed_Append_def Let_def split: option.splits)
  note a = appendInteger_reach[OF ib ai]
  show ?thesis
  proof (cases "r1 = CR_OK")
    case False
    then show ?thesis using ib ca ns ai a(5)
      by (auto simp: Compressed_Append_def Let_def idx_in_bounds_def)
  next
    case True
    obtain r2 c2 where af: "appendFloat c1 v = Some (r2, c2)"
      using ca ns ai True by (auto simp: Compressed_Append_def Let_def split: option.splits)
    have room1: "unat (idx c1) < unat (base_size c1 * 8)" using a(4)[OF True] a(5) by simp
    note b = appendFloat_reach[OF room1 af]
    show ?thesis
    proof (cases "r2 = CR_OK")
      case False
      then show ?thesis using ib ca ns ai True af a(5) b(4)
        by (auto simp: Compressed_Append_def Let_def idx_in_bounds_def)
    next
      case r2: True
      have "chunk' = c2\<lparr>base_numSamples := base_numSamples c2 + 1\<rparr>"
        using ca ns ai True af r2 by (auto simp: Compressed_Append_def Let_def)
      then show ?thesis using b(2,4) by (simp add: idx_in_bounds_def word_le_nat_alt)
    qed
  qed
qed

text \<open>
  C10. \<^verbatim>\<open>appendBits\<close> writes the bits from the cursor on and moves the cursor past them, so the
  bits written during a call lie between the cursor at entry and the cursor reached. On a
  chunk whose cursor is within its capacity, \<^verbatim>\<open>appendInteger\<close> never wraps the cursor, reaches
  at most \<open>8 * size\<close>, changes no bit outside the two cursors and, when it returns \<^verbatim>\<open>CR_OK\<close>,
  stops strictly below \<open>8 * size\<close>: the bit it leaves is the one the flag of \<^verbatim>\<open>appendFloat\<close>
  takes. \<^verbatim>\<open>appendFloat\<close>, called on its result, moves the cursor forward, reaches at most
  \<open>8 * size\<close> whether it returns \<^verbatim>\<open>CR_OK\<close> or \<^verbatim>\<open>CR_ERR\<close>, and changes no bit outside its two
  cursors. \<^verbatim>\<open>Compressed_Append\<close> returns a chunk whose cursor is again within its capacity.
\<close>

theorem C10_writes_below_capacity:
  assumes "idx_in_bounds chunk" and "appendInteger chunk t = Some (r1, c1)"
  shows "unat (idx chunk) \<le> unat (idx c1) \<and> unat (idx c1) \<le> unat (base_size chunk * 8) \<and>
         (\<forall>p. gbit (data c1) p \<noteq> gbit (data chunk) p \<longrightarrow> unat (idx chunk) \<le> p \<and> p < unat (idx c1)) \<and>
         (r1 = CR_OK \<longrightarrow>
            unat (idx c1) < unat (base_size chunk * 8) \<and>
            (\<forall>v r2 c2. appendFloat c1 v = Some (r2, c2) \<longrightarrow>
               unat (idx c1) < unat (idx c2) \<and> unat (idx c2) \<le> unat (base_size chunk * 8) \<and>
               (\<forall>p. gbit (data c2) p \<noteq> gbit (data c1) p \<longrightarrow> unat (idx c1) \<le> p \<and> p < unat (idx c2)))) \<and>
         (\<forall>v r chunk'. Compressed_Append chunk t v = Some (r, chunk') \<longrightarrow> idx_in_bounds chunk')"
proof -
  note a = appendInteger_reach[OF assms]
  have fl: "unat (idx c1) < unat (idx c2) \<and> unat (idx c2) \<le> unat (base_size chunk * 8) \<and>
               (\<forall>p. gbit (data c2) p \<noteq> gbit (data c1) p \<longrightarrow> unat (idx c1) \<le> p \<and> p < unat (idx c2))"
    if "r1 = CR_OK" "appendFloat c1 v = Some (r2, c2)" for v r2 c2
  proof -
    have room1: "unat (idx c1) < unat (base_size c1 * 8)" using a(4)[OF that(1)] a(5) by simp
    note b = appendFloat_reach[OF room1 that(2)]
    show ?thesis using b(1,2,3) a(5) by auto
  qed
  show ?thesis
    using a(1,2,3,4) fl Compressed_Append_in_bounds[OF assms(1)] by blast
qed

lemma two_sample_chunk_appendInteger:
  "appendInteger two_sample_chunk 3 = Some (CR_OK, two_sample_chunk_ts)"
  by (simp add: two_sample_chunk_def two_sample_chunk_ts_def eval_defs word_sle_eq fun_eq_iff)

text \<open>
  The theorem of C10 at the 2-byte chunk: the timestamp of the third sample takes the
  cursor from bit 8 to bit 15, below the 16 bits of the chunk.
\<close>

theorem C10_witness:
  "idx_in_bounds two_sample_chunk \<and>
   appendInteger two_sample_chunk 3 = Some (CR_OK, two_sample_chunk_ts) \<and>
   unat (idx two_sample_chunk) \<le> unat (idx two_sample_chunk_ts) \<and>
   unat (idx two_sample_chunk_ts) < unat (base_size two_sample_chunk * 8) \<and>
   unat (idx two_sample_chunk_ts) = 15 \<and> unat (base_size two_sample_chunk * 8) = 16"
proof -
  note t = C10_writes_below_capacity[OF two_sample_chunk_bounds two_sample_chunk_appendInteger]
  have "unat (idx two_sample_chunk) \<le> unat (idx two_sample_chunk_ts) \<and>
   unat (idx two_sample_chunk_ts) < unat (base_size two_sample_chunk * 8)"
    using t by blast
  moreover have "unat (idx two_sample_chunk_ts) = 15 \<and> unat (base_size two_sample_chunk * 8) = 16"
    by (simp add: two_sample_chunk_ts_def two_sample_chunk_def zero_chunk_def)
  ultimately show ?thesis using two_sample_chunk_bounds two_sample_chunk_appendInteger by blast
qed

section \<open>Prefixes and the spec's table\<close>

lemma Bin_InRange_iff:
  "Bin_InRange x CMPR_L1 \<longleftrightarrow> - 16 \<le> sint x \<and> sint x \<le> 15"
  "Bin_InRange x CMPR_L2 \<longleftrightarrow> - 128 \<le> sint x \<and> sint x \<le> 127"
  "Bin_InRange x CMPR_L3 \<longleftrightarrow> - 1024 \<le> sint x \<and> sint x \<le> 1023"
  "Bin_InRange x CMPR_L4 \<longleftrightarrow> - 16384 \<le> sint x \<and> sint x \<le> 16383"
  "Bin_InRange x CMPR_L5 \<longleftrightarrow> - (2 ^ 31) \<le> sint x \<and> sint x \<le> 2 ^ 31 - 1"
  by (simp_all add: Bin_InRange_def Bin_MinVal_def Bin_MaxVal_def BIT_def minus1_def word_sle_eq
      CMPR_L1_def CMPR_L2_def CMPR_L3_def CMPR_L4_def CMPR_L5_def)

lemma sint_eq_0_iff: "sint (x :: u64) = 0 \<longleftrightarrow> x = 0"
  by (metis signed_0 signed_word_eqI)

lemma sint_u64_range: "- (2 ^ 63) \<le> sint (x :: u64)" "sint (x :: u64) \<le> 2 ^ 63 - 1"
  using sint_ge[of x] sint_lt[of x] by simp_all

lemma bits_of_take_bit: "bits_of (take_bit w x) w = bits_of x w"
  by (simp add: bits_of_def bit_simps)

lemma bits_of_prefixes:
  "bits_of 0x00 1 = [False]" "bits_of 0x01 2 = [True, False]" "bits_of 0x03 3 = [True, True, False]"
  "bits_of 0x07 4 = [True, True, True, False]" "bits_of 0x0f 5 = [True, True, True, True, False]"
  "bits_of 0x1f 6 = [True, True, True, True, True, False]"
  "bits_of 0x3f 6 = [True, True, True, True, True, True]"
  by (simp_all add: bits_of_def upt_rec bit_numeral_rec)

lemma dd_code_matches_spec:
  assumes "dd_code dd = (pre, plen, pay, w)"
  shows "\<exists>lo hi. spec_dd_bucket (sint dd) = Some (bits_of pre plen, w, lo, hi)"
    and "bits_of pay w = bits_of dd w"
proof -
  have r: "- (2 ^ 63) \<le> sint dd" "sint dd \<le> 2 ^ 63 - 1" by (rule sint_u64_range)+
  have z: "sint dd = 0 \<longleftrightarrow> dd = 0" by (rule sint_eq_0_iff)
  consider (0) "dd = 0"
    | (1) "dd \<noteq> 0" "Bin_InRange dd CMPR_L1"
    | (2) "dd \<noteq> 0" "\<not> Bin_InRange dd CMPR_L1" "Bin_InRange dd CMPR_L2"
    | (3) "dd \<noteq> 0" "\<not> Bin_InRange dd CMPR_L1" "\<not> Bin_InRange dd CMPR_L2" "Bin_InRange dd CMPR_L3"
    | (4) "dd \<noteq> 0" "\<not> Bin_InRange dd CMPR_L1" "\<not> Bin_InRange dd CMPR_L2" "\<not> Bin_InRange dd CMPR_L3"
          "Bin_InRange dd CMPR_L4"
    | (5) "dd \<noteq> 0" "\<not> Bin_InRange dd CMPR_L1" "\<not> Bin_InRange dd CMPR_L2" "\<not> Bin_InRange dd CMPR_L3"
          "\<not> Bin_InRange dd CMPR_L4" "Bin_InRange dd CMPR_L5"
    | (6) "dd \<noteq> 0" "\<not> Bin_InRange dd CMPR_L1" "\<not> Bin_InRange dd CMPR_L2" "\<not> Bin_InRange dd CMPR_L3"
          "\<not> Bin_InRange dd CMPR_L4" "\<not> Bin_InRange dd CMPR_L5"
    by blast
  then have "(\<exists>lo hi. spec_dd_bucket (sint dd) = Some (bits_of pre plen, w, lo, hi)) \<and>
      bits_of pay w = bits_of dd w"
  proof cases
    case 0
    then have "pre = 0" "plen = 1" "pay = 0" "w = 0" using assms by (simp_all add: dd_code_def)
    then show ?thesis using 0
      by (simp add: spec_dd_bucket_def spec_dd_table_def bits_of_prefixes bits_of_def)
  next
    case 1
    then have "pre = 1" "plen = 2" "pay = int2bin dd CMPR_L1" "w = CMPR_L1"
      using assms by (simp_all add: dd_code_def)
    then show ?thesis using 1 z bits_of_prefixes(2)
      by (simp add: spec_dd_bucket_def spec_dd_table_def int2bin_def LSB_take_bit
          bits_of_take_bit Bin_InRange_iff) (simp add: CMPR_L1_def)
  next
    case 2
    then have "pre = 3" "plen = 3" "pay = int2bin dd CMPR_L2" "w = CMPR_L2"
      using assms by (simp_all add: dd_code_def)
    then show ?thesis using 2 z bits_of_prefixes(3)
      by (simp add: spec_dd_bucket_def spec_dd_table_def int2bin_def LSB_take_bit
          bits_of_take_bit Bin_InRange_iff) (simp add: CMPR_L2_def)
  next
    case 3
    then have "pre = 7" "plen = 4" "pay = int2bin dd CMPR_L3" "w = CMPR_L3"
      using assms by (simp_all add: dd_code_def)
    then show ?thesis using 3 z bits_of_prefixes(4)
      by (simp add: spec_dd_bucket_def spec_dd_table_def int2bin_def LSB_take_bit
          bits_of_take_bit Bin_InRange_iff) (simp add: CMPR_L3_def)
  next
    case 4
    then have "pre = 15" "plen = 5" "pay = int2bin dd CMPR_L4" "w = CMPR_L4"
      using assms by (simp_all add: dd_code_def)
    then show ?thesis using 4 z bits_of_prefixes(5)
      by (simp add: spec_dd_bucket_def spec_dd_table_def int2bin_def LSB_take_bit
          bits_of_take_bit Bin_InRange_iff) (simp add: CMPR_L4_def)
  next
    case 5
    then have "pre = 31" "plen = 6" "pay = int2bin dd CMPR_L5" "w = CMPR_L5"
      using assms by (simp_all add: dd_code_def)
    then show ?thesis using 5 z bits_of_prefixes(6)
      by (simp add: spec_dd_bucket_def spec_dd_table_def int2bin_def LSB_take_bit
          bits_of_take_bit Bin_InRange_iff) (simp add: CMPR_L5_def)
  next
    case 6
    then have "pre = 63" "plen = 6" "pay = dd" "w = 64"
      using assms by (simp_all add: dd_code_def)
    then show ?thesis using 6 z r bits_of_prefixes(7)
      by (simp add: spec_dd_bucket_def spec_dd_table_def Bin_InRange_iff)
  qed
  then show "\<exists>lo hi. spec_dd_bucket (sint dd) = Some (bits_of pre plen, w, lo, hi)"
    and "bits_of pay w = bits_of dd w" by blast+
qed

lemma fields_fresh_map:
  assumes "fits fs" and "unat b + length (stream fs) < 2 ^ 64" and "zero_from bs (unat b)"
  shows "map (\<lambda>i. gbit (fst (appendFields bs b fs)) (unat b + i)) [0..<length (stream fs)] = stream fs"
  by (rule nth_equalityI) (simp_all add: fields_fresh[OF assms])

text \<open>
  C4. A successful \<^verbatim>\<open>appendInteger\<close> on a chunk whose cursor is within its capacity and whose
  buffer is still zero from the cursor on (as after appends to a zero-initialized chunk)
  writes, from the cursor, the prefix of the first row of the spec's table whose range
  contains the delta of deltas, then the low \<open>w\<close> bits of the delta of deltas, \<open>w\<close> the width
  of that row, and moves the cursor by the length of the prefix plus \<open>w\<close>: 1 bit for 0,
  \<open>2 + 5\<close>, \<open>3 + 8\<close>, \<open>4 + 11\<close>, \<open>5 + 15\<close>, \<open>6 + 32\<close> bits for the five buckets and \<open>6 + 64\<close> bits
  for the escape.
\<close>

theorem C4_prefix_from_table:
  assumes ok: "appendInteger chunk t = Some (CR_OK, c1)"
    and ib: "idx_in_bounds chunk"
    and z: "zero_from (data chunk) (unat (idx chunk))"
  shows "case spec_dd_bucket (sint (t - prevTimestamp chunk - prevTimestampDelta chunk)) of
           None \<Rightarrow> False
         | Some (prefix, w, lo, hi) \<Rightarrow>
             unat (idx c1) = unat (idx chunk) + length prefix + w \<and>
             map (\<lambda>i. gbit (data c1) (unat (idx chunk) + i)) [0..<length prefix + w] =
               prefix @ bits_of (t - prevTimestamp chunk - prevTimestampDelta chunk) w"
proof -
  define dd where "dd = t - prevTimestamp chunk - prevTimestampDelta chunk"
  define fs where "fs = int_fields dd"
  obtain pre plen pay w where d: "dd_code dd = (pre, plen, pay, w)" by (metis prod_cases4)
  obtain lo hi where b: "spec_dd_bucket (sint dd) = Some (bits_of pre plen, w, lo, hi)"
    using dd_code_matches_spec(1)[OF d] by blast
  have pay: "bits_of pay w = bits_of dd w" using d by (rule dd_code_matches_spec(2))
  note i = appendInteger_OK_fields[OF ok ib, folded dd_def, folded fs_def]
  have f: "fits fs" by (simp add: fs_def int_fields_fits)
  have lt: "unat (idx chunk) + length (stream fs) < 2 ^ 64"
    using i(3) unat_lt_2p64[of "base_size chunk * 8"] by linarith
  have st: "stream fs = bits_of pre plen @ bits_of dd w"
    using pay by (simp add: fs_def int_fields_def d)
  have dt: "data c1 = fst (appendFields (data chunk) (idx chunk) fs)" by (subst i(1)) simp
  have "map (\<lambda>i. gbit (data c1) (unat (idx chunk) + i)) [0..<length (stream fs)] = stream fs"
    unfolding dt using f lt z by (rule fields_fresh_map)
  then have m: "map (\<lambda>i. gbit (data c1) (unat (idx chunk) + i)) [0..<plen + w] =
      bits_of pre plen @ bits_of dd w"
    by (simp add: st)
  have "unat (idx c1) = unat (idx chunk) + plen + w" using i(2) by (simp add: st)
  then show ?thesis using m b by (simp add: dd_def[symmetric])
qed

lemma one_sample_chunk_appendInteger:
  "appendInteger one_sample_chunk 1010 = Some (CR_OK, one_sample_chunk_ts)"
  by (simp add: one_sample_chunk_def one_sample_chunk_ts_def eval_defs word_sle_eq fun_eq_iff)

text \<open>
  The theorem of C4 at the chunk holding \<open>(1000, 5.0)\<close> and the timestamp 1010: delta of deltas
  10, prefix \<open>1, 0\<close> and 5 bits.
\<close>

theorem C4_witness:
  "appendInteger one_sample_chunk 1010 = Some (CR_OK, one_sample_chunk_ts) \<and>
   idx_in_bounds one_sample_chunk \<and>
   zero_from (data one_sample_chunk) (unat (idx one_sample_chunk)) \<and>
   spec_dd_bucket (sint (1010 - prevTimestamp one_sample_chunk - prevTimestampDelta one_sample_chunk))
     = Some ([True, False], 5, - 16, 15) \<and>
   unat (idx one_sample_chunk_ts) = unat (idx one_sample_chunk) + length [True, False] + 5 \<and>
   map (\<lambda>i. gbit (data one_sample_chunk_ts) (unat (idx one_sample_chunk) + i))
       [0..<length [True, False] + 5] =
     [True, False] @ bits_of 10 5"
proof -
  have ib: "idx_in_bounds one_sample_chunk"
    by (simp add: idx_in_bounds_def one_sample_chunk_def zero_chunk_def)
  have z: "zero_from (data one_sample_chunk) (unat (idx one_sample_chunk))"
    by (simp add: zero_from_def one_sample_chunk_def zero_chunk_def gbit_def)
  have dd: "1010 - prevTimestamp one_sample_chunk - prevTimestampDelta one_sample_chunk = 10"
    by (simp add: one_sample_chunk_def zero_chunk_def)
  have b: "spec_dd_bucket (sint (10 :: u64)) = Some ([True, False], 5, - 16, 15)"
    by (simp add: spec_dd_bucket_def spec_dd_table_def)
  note t = C4_prefix_from_table[OF one_sample_chunk_appendInteger ib z, unfolded dd b]
  then have c: "unat (idx one_sample_chunk_ts) = unat (idx one_sample_chunk) + length [True, False] + 5 \<and>
   map (\<lambda>i. gbit (data one_sample_chunk_ts) (unat (idx one_sample_chunk) + i))
       [0..<length [True, False] + 5] =
     [True, False] @ bits_of 10 5"
    by (simp only: option.case prod.case)
  have b': "spec_dd_bucket (sint (1010 - prevTimestamp one_sample_chunk - prevTimestampDelta one_sample_chunk))
     = Some ([True, False], 5, - 16, 15)"
    by (simp only: dd b)
  from one_sample_chunk_appendInteger ib z b' c show ?thesis by blast
qed

section \<open>Round trip\<close>

lemma stream_at_append:
  "stream_at D g (xs @ ys) \<longleftrightarrow> stream_at D g xs \<and> stream_at D (g + length xs) ys"
proof
  assume a: "stream_at D g (xs @ ys)"
  have 1: "stream_at D g xs"
    unfolding stream_at_def
  proof (intro allI impI)
    fix i assume "i < length xs"
    then show "gbit D (g + i) = xs ! i"
      using a[unfolded stream_at_def, rule_format, of i] by (simp add: nth_append)
  qed
  have 2: "stream_at D (g + length xs) ys"
    unfolding stream_at_def
  proof (intro allI impI)
    fix i assume "i < length ys"
    then show "gbit D (g + length xs + i) = ys ! i"
      using a[unfolded stream_at_def, rule_format, of "length xs + i"] by (simp add: nth_append add.assoc)
  qed
  show "stream_at D g xs \<and> stream_at D (g + length xs) ys" using 1 2 by simp
next
  assume a: "stream_at D g xs \<and> stream_at D (g + length xs) ys"
  show "stream_at D g (xs @ ys)"
    unfolding stream_at_def
  proof (intro allI impI)
    fix i assume i: "i < length (xs @ ys)"
    show "gbit D (g + i) = (xs @ ys) ! i"
    proof (cases "i < length xs")
      case True
      then show ?thesis using a by (simp add: stream_at_def nth_append)
    next
      case False
      then have "i - length xs < length ys" "g + length xs + (i - length xs) = g + i"
        using i by simp_all
      then show ?thesis using a False
        unfolding stream_at_def by (metis nth_append)
    qed
  qed
qed

lemma bitoff_at:
  fixes b :: u64
  assumes "stream_at D (unat b) s" and "j < length s" and "unat b + j < 2 ^ 64"
  shows "Bins_bitoff D (b + of_nat j) \<longleftrightarrow> \<not> s ! j"
proof -
  have "unat (b + of_nat j) = unat b + j" using assms(3) by (rule unat_cursor)
  then show ?thesis using assms(1,2) by (simp add: Bins_bitoff_gbit stream_at_def)
qed

lemma readBits_at:
  fixes b :: u64
  assumes at: "stream_at D (unat b + k) (bits_of d n)" and n: "n \<le> 64" and t: "take_bit n d = d"
    and room: "unat b + k < 2 ^ 64"
  shows "readBits D (b + of_nat k) n = (d, b + of_nat k + of_nat n)"
proof -
  have u: "unat (b + of_nat k) = unat b + k" using room by (rule unat_cursor)
  have "fst (readBits D (b + of_nat k) n) = d"
  proof (rule bit_word_eqI)
    fix i assume "i < LENGTH(64)"
    show "bit (fst (readBits D (b + of_nat k) n)) i = bit d i"
    proof (cases "i < n")
      case True
      then have "gbit D (unat b + k + i) = bit d i" using at by (simp add: stream_at_def)
      then show ?thesis using True by (simp add: readBits_bit[OF n] u)
    next
      case False
      have "\<not> bit (take_bit n d) i" using False by (simp add: bit_simps)
      then have "\<not> bit d i" by (simp add: t)
      then show ?thesis using False by (simp add: readBits_bit[OF n])
    qed
  qed
  then show ?thesis by (simp add: prod_eq_iff readBits_snd)
qed

lemma bin2int_InRange:
  "Bin_InRange x CMPR_L1 \<Longrightarrow> bin2int (int2bin x CMPR_L1) CMPR_L1 = x"
  "Bin_InRange x CMPR_L2 \<Longrightarrow> bin2int (int2bin x CMPR_L2) CMPR_L2 = x"
  "Bin_InRange x CMPR_L3 \<Longrightarrow> bin2int (int2bin x CMPR_L3) CMPR_L3 = x"
  "Bin_InRange x CMPR_L4 \<Longrightarrow> bin2int (int2bin x CMPR_L4) CMPR_L4 = x"
  "Bin_InRange x CMPR_L5 \<Longrightarrow> bin2int (int2bin x CMPR_L5) CMPR_L5 = x"
proof -
  show "Bin_InRange x CMPR_L1 \<Longrightarrow> bin2int (int2bin x CMPR_L1) CMPR_L1 = x"
    using bin2int_int2bin[of 5 x] by (simp add: Bin_InRange_iff(1)) (simp add: CMPR_L1_def)
  show "Bin_InRange x CMPR_L2 \<Longrightarrow> bin2int (int2bin x CMPR_L2) CMPR_L2 = x"
    using bin2int_int2bin[of 8 x] by (simp add: Bin_InRange_iff(2)) (simp add: CMPR_L2_def)
  show "Bin_InRange x CMPR_L3 \<Longrightarrow> bin2int (int2bin x CMPR_L3) CMPR_L3 = x"
    using bin2int_int2bin[of 11 x] by (simp add: Bin_InRange_iff(3)) (simp add: CMPR_L3_def)
  show "Bin_InRange x CMPR_L4 \<Longrightarrow> bin2int (int2bin x CMPR_L4) CMPR_L4 = x"
    using bin2int_int2bin[of 15 x] by (simp add: Bin_InRange_iff(4)) (simp add: CMPR_L4_def)
  show "Bin_InRange x CMPR_L5 \<Longrightarrow> bin2int (int2bin x CMPR_L5) CMPR_L5 = x"
    using bin2int_int2bin[of 32 x] by (simp add: Bin_InRange_iff(5)) (simp add: CMPR_L5_def)
qed

lemma prefix_flags:
  fixes b :: u64
  assumes at: "stream_at D (unat b) (bits_of pre plen @ rest)" and room: "unat b + plen < 2 ^ 64"
  shows "0 < plen \<Longrightarrow> Bins_bitoff D b = (\<not> bit pre 0)"
    and "1 < plen \<Longrightarrow> Bins_bitoff D (b + 1) = (\<not> bit pre 1)"
    and "2 < plen \<Longrightarrow> Bins_bitoff D (b + 2) = (\<not> bit pre 2)"
    and "3 < plen \<Longrightarrow> Bins_bitoff D (b + 3) = (\<not> bit pre 3)"
    and "4 < plen \<Longrightarrow> Bins_bitoff D (b + 4) = (\<not> bit pre 4)"
    and "5 < plen \<Longrightarrow> Bins_bitoff D (b + 5) = (\<not> bit pre 5)"
proof -
  have g: "Bins_bitoff D (b + of_nat j) = (\<not> bit pre j)" if "j < plen" for j
  proof -
    have "Bins_bitoff D (b + of_nat j) \<longleftrightarrow> \<not> (bits_of pre plen @ rest) ! j"
      using at that room by (intro bitoff_at) simp_all
    then show ?thesis using that by (simp add: nth_append)
  qed
  show "0 < plen \<Longrightarrow> Bins_bitoff D b = (\<not> bit pre 0)" using g[of 0] by simp
  show "1 < plen \<Longrightarrow> Bins_bitoff D (b + 1) = (\<not> bit pre 1)" using g[of 1] by simp
  show "2 < plen \<Longrightarrow> Bins_bitoff D (b + 2) = (\<not> bit pre 2)" using g[of 2] by simp
  show "3 < plen \<Longrightarrow> Bins_bitoff D (b + 3) = (\<not> bit pre 3)" using g[of 3] by simp
  show "4 < plen \<Longrightarrow> Bins_bitoff D (b + 4) = (\<not> bit pre 4)" using g[of 4] by simp
  show "5 < plen \<Longrightarrow> Bins_bitoff D (b + 5) = (\<not> bit pre 5)" using g[of 5] by simp
qed

lemma payload_read:
  fixes b :: u64
  assumes at: "stream_at D (unat b) (bits_of pre plen @ bits_of pay w)"
    and room: "unat b + plen + w < 2 ^ 64" and w: "w \<le> 64" and t: "take_bit w pay = pay"
  shows "readBits D (b + of_nat plen) w = (pay, b + of_nat plen + of_nat w)"
proof -
  have "stream_at D (unat b + plen) (bits_of pay w)"
    using at by (simp add: stream_at_append)
  moreover have "unat b + plen < 2 ^ 64" using room by simp
  ultimately show ?thesis using w t by (intro readBits_at) simp_all
qed

lemma bit_prefix_numerals:
  "bit (1 :: u64) 0" "\<not> bit (1 :: u64) 1"
  "bit (3 :: u64) 0" "bit (3 :: u64) 1" "\<not> bit (3 :: u64) 2"
  "bit (7 :: u64) 0" "bit (7 :: u64) 1" "bit (7 :: u64) 2" "\<not> bit (7 :: u64) 3"
  "bit (15 :: u64) 0" "bit (15 :: u64) 1" "bit (15 :: u64) 2" "bit (15 :: u64) 3" "\<not> bit (15 :: u64) 4"
  "bit (31 :: u64) 0" "bit (31 :: u64) 1" "bit (31 :: u64) 2" "bit (31 :: u64) 3" "bit (31 :: u64) 4"
  "\<not> bit (31 :: u64) 5"
  "bit (63 :: u64) 0" "bit (63 :: u64) 1" "bit (63 :: u64) 2" "bit (63 :: u64) 3" "bit (63 :: u64) 4"
  "bit (63 :: u64) 5"
  by (simp_all add: bit_numeral_rec)

lemma readInteger_decodes:
  assumes d: "dd_code dd = (pre, plen, pay, w)"
    and at: "stream_at D (unat (it_idx it)) (bits_of pre plen @ bits_of pay w)"
    and room: "unat (it_idx it) + plen + w < 2 ^ 64"
  shows "readInteger D it =
     (it_prevTS it + (it_prevDelta it + dd),
      it\<lparr>it_idx := it_idx it + of_nat plen + of_nat w,
         it_prevDelta := it_prevDelta it + dd,
         it_prevTS := it_prevTS it + (it_prevDelta it + dd)\<rparr>)"
proof -
  note p = dd_code_props[OF d]
  have room': "unat (it_idx it) + plen < 2 ^ 64" using room by simp
  note fl = prefix_flags[OF at room']
  note rd = payload_read[OF at room p(3) p(5)]
  consider (0) "dd = 0"
    | (1) "dd \<noteq> 0" "Bin_InRange dd CMPR_L1"
    | (2) "dd \<noteq> 0" "\<not> Bin_InRange dd CMPR_L1" "Bin_InRange dd CMPR_L2"
    | (3) "dd \<noteq> 0" "\<not> Bin_InRange dd CMPR_L1" "\<not> Bin_InRange dd CMPR_L2" "Bin_InRange dd CMPR_L3"
    | (4) "dd \<noteq> 0" "\<not> Bin_InRange dd CMPR_L1" "\<not> Bin_InRange dd CMPR_L2" "\<not> Bin_InRange dd CMPR_L3"
          "Bin_InRange dd CMPR_L4"
    | (5) "dd \<noteq> 0" "\<not> Bin_InRange dd CMPR_L1" "\<not> Bin_InRange dd CMPR_L2" "\<not> Bin_InRange dd CMPR_L3"
          "\<not> Bin_InRange dd CMPR_L4" "Bin_InRange dd CMPR_L5"
    | (6) "dd \<noteq> 0" "\<not> Bin_InRange dd CMPR_L1" "\<not> Bin_InRange dd CMPR_L2" "\<not> Bin_InRange dd CMPR_L3"
          "\<not> Bin_InRange dd CMPR_L4" "\<not> Bin_InRange dd CMPR_L5"
    by blast
  then show ?thesis
  proof cases
    case 0
    then have v: "pre = 0" "plen = 1" "pay = 0" "w = 0" using d by (simp_all add: dd_code_def)
    have "Bins_bitoff D (it_idx it)" using fl(1) v by simp
    then show ?thesis using 0 v by (simp add: readInteger_def Let_def)
  next
    case 1
    then have v: "pre = 1" "plen = 2" "pay = int2bin dd CMPR_L1" "w = CMPR_L1"
      using d by (simp_all add: dd_code_def)
    have f: "\<not> Bins_bitoff D (it_idx it)" "Bins_bitoff D (it_idx it + 1)"
      using fl(1,2) v bit_prefix_numerals by simp_all
    have r: "readBits D (it_idx it + 2) CMPR_L1 = (pay, it_idx it + 2 + of_nat CMPR_L1)"
      using rd v by simp
    have b: "bin2int pay CMPR_L1 = dd" using 1 v bin2int_InRange(1) by simp
    show ?thesis using f r b v by (simp add: readInteger_def Let_def)
  next
    case 2
    then have v: "pre = 3" "plen = 3" "pay = int2bin dd CMPR_L2" "w = CMPR_L2"
      using d by (simp_all add: dd_code_def)
    have f: "\<not> Bins_bitoff D (it_idx it)" "\<not> Bins_bitoff D (it_idx it + 1)"
      "Bins_bitoff D (it_idx it + 2)"
      using fl(1,2,3) v bit_prefix_numerals by simp_all
    have r: "readBits D (it_idx it + 3) CMPR_L2 = (pay, it_idx it + 3 + of_nat CMPR_L2)"
      using rd v by simp
    have b: "bin2int pay CMPR_L2 = dd" using 2 v bin2int_InRange(2) by simp
    show ?thesis using f r b v by (simp add: readInteger_def Let_def)
  next
    case 3
    then have v: "pre = 7" "plen = 4" "pay = int2bin dd CMPR_L3" "w = CMPR_L3"
      using d by (simp_all add: dd_code_def)
    have f: "\<not> Bins_bitoff D (it_idx it)" "\<not> Bins_bitoff D (it_idx it + 1)"
      "\<not> Bins_bitoff D (it_idx it + 2)" "Bins_bitoff D (it_idx it + 3)"
      using fl(1,2,3,4) v bit_prefix_numerals by simp_all
    have r: "readBits D (it_idx it + 4) CMPR_L3 = (pay, it_idx it + 4 + of_nat CMPR_L3)"
      using rd v by simp
    have b: "bin2int pay CMPR_L3 = dd" using 3 v bin2int_InRange(3) by simp
    show ?thesis using f r b v by (simp add: readInteger_def Let_def)
  next
    case 4
    then have v: "pre = 15" "plen = 5" "pay = int2bin dd CMPR_L4" "w = CMPR_L4"
      using d by (simp_all add: dd_code_def)
    have f: "\<not> Bins_bitoff D (it_idx it)" "\<not> Bins_bitoff D (it_idx it + 1)"
      "\<not> Bins_bitoff D (it_idx it + 2)" "\<not> Bins_bitoff D (it_idx it + 3)"
      "Bins_bitoff D (it_idx it + 4)"
      using fl(1,2,3,4,5) v bit_prefix_numerals by simp_all
    have r: "readBits D (it_idx it + 5) CMPR_L4 = (pay, it_idx it + 5 + of_nat CMPR_L4)"
      using rd v by simp
    have b: "bin2int pay CMPR_L4 = dd" using 4 v bin2int_InRange(4) by simp
    show ?thesis using f r b v by (simp add: readInteger_def Let_def)
  next
    case 5
    then have v: "pre = 31" "plen = 6" "pay = int2bin dd CMPR_L5" "w = CMPR_L5"
      using d by (simp_all add: dd_code_def)
    have f: "\<not> Bins_bitoff D (it_idx it)" "\<not> Bins_bitoff D (it_idx it + 1)"
      "\<not> Bins_bitoff D (it_idx it + 2)" "\<not> Bins_bitoff D (it_idx it + 3)"
      "\<not> Bins_bitoff D (it_idx it + 4)" "Bins_bitoff D (it_idx it + 5)"
      using fl v bit_prefix_numerals by simp_all
    have r: "readBits D (it_idx it + 6) CMPR_L5 = (pay, it_idx it + 6 + of_nat CMPR_L5)"
      using rd v by simp
    have b: "bin2int pay CMPR_L5 = dd" using 5 v bin2int_InRange(5) by simp
    show ?thesis using f r b v by (simp add: readInteger_def Let_def)
  next
    case 6
    then have v: "pre = 63" "plen = 6" "pay = dd" "w = 64"
      using d by (simp_all add: dd_code_def)
    have f: "\<not> Bins_bitoff D (it_idx it)" "\<not> Bins_bitoff D (it_idx it + 1)"
      "\<not> Bins_bitoff D (it_idx it + 2)" "\<not> Bins_bitoff D (it_idx it + 3)"
      "\<not> Bins_bitoff D (it_idx it + 4)" "\<not> Bins_bitoff D (it_idx it + 5)"
      using fl v bit_prefix_numerals by simp_all
    have r: "readBits D (it_idx it + 6) 64 = (dd, it_idx it + 6 + 64)"
      using rd v by simp
    show ?thesis using f r v by (simp add: readInteger_def Let_def)
  qed
qed

lemma unat_of_nat_u64: "n < 2 ^ 64 \<Longrightarrow> unat (of_nat n :: u64) = n"
  by (simp add: unat_of_nat)

lemma ucast_of_nat_u8: "n < 256 \<Longrightarrow> (ucast (of_nat n :: u64) :: u8) = of_nat n"
  by (rule word_unat_eq_iff[THEN iffD2]) (simp add: unat_of_nat unsigned_ucast_eq take_bit_nat_eq_self)

lemma xor_back: "(v XOR p) XOR p = (v :: u64)"
  by (simp add: xor.assoc)

lemma readFloat_decodes:
  assumes at: "stream_at D (unat (it_idx it)) (stream (float_fields c x))"
    and x: "x = v XOR prevValue c"
    and pv: "it_prevValue it = prevValue c"
    and pl: "it_prevLeading it = prevLeading c" and pt: "it_prevTrailing it = prevTrailing c"
    and w: "x \<noteq> 0 \<Longrightarrow> unat (prevLeading c) + unat (prevTrailing c) \<le> 64"
    and room: "unat (it_idx it) + length (stream (float_fields c x)) < 2 ^ 64"
  shows "readFloat D it =
     Some (v, it\<lparr>it_idx := it_idx it + of_nat (length (stream (float_fields c x))),
                 it_prevValue := v,
                 it_prevLeading := (if x = 0 \<or> use_prev_window c x then prevLeading c
                                    else of_nat (xor_leading x)),
                 it_prevTrailing := (if x = 0 \<or> use_prev_window c x then prevTrailing c
                                     else of_nat (TrailingZeros64 x))\<rparr>)"
proof (cases "x = 0")
  case True
  then have v: "v = prevValue c" using x by (simp add: xor_eq_0_iff)
  have st: "stream (float_fields c x) = bits_of 0 1" using True by (simp add: float_fields_def)
  have at': "stream_at D (unat (it_idx it)) (bits_of 0 1 @ [])" using at st by simp
  have room': "unat (it_idx it) + 1 < 2 ^ 64" using room st by simp
  have "Bins_bitoff D (it_idx it)" using prefix_flags(1)[OF at' room'] by simp
  then have "readFloat D it = Some (it_prevValue it, it\<lparr>it_idx := it_idx it + 1\<rparr>)"
    by (simp add: readFloat_def Let_def)
  moreover have "it\<lparr>it_idx := it_idx it + 1\<rparr> =
      it\<lparr>it_idx := it_idx it + 1, it_prevValue := v, it_prevLeading := prevLeading c,
         it_prevTrailing := prevTrailing c\<rparr>"
    using pv pl pt v by (intro Compressed_Iterator.equality) simp_all
  ultimately show ?thesis using True st pv v by simp
next
  case False
  note w' = w[OF False]
  have s: "xor_leading x + TrailingZeros64 x \<le> 63" using False by (rule xor_window_sum)
  show ?thesis
  proof (cases "use_prev_window c x")
    case True
    define b' where "b' = 64 - unat (prevLeading c) - unat (prevTrailing c)"
    have st: "stream (float_fields c x) =
        bits_of 1 1 @ bits_of 0 1 @ bits_of (drop_bit (unat (prevTrailing c)) x) b'"
      using False True by (simp add: float_fields_def b'_def)
    have room2: "unat (it_idx it) + 2 < 2 ^ 64" using room st by simp
    have at1: "stream_at D (unat (it_idx it)) (bits_of 1 1 @ (bits_of 0 1 @ bits_of (drop_bit (unat (prevTrailing c)) x) b'))"
      using at st by simp
    have at2: "stream_at D (unat (it_idx it + 1)) (bits_of 0 1 @ bits_of (drop_bit (unat (prevTrailing c)) x) b')"
      using at1 unat_cursor[of "it_idx it" 1] room2 by (simp add: stream_at_append)
    have u1: "unat (it_idx it + 1) + 1 < 2 ^ 64" using unat_cursor[of "it_idx it" 1] room2 by simp
    have f0: "\<not> Bins_bitoff D (it_idx it)"
      using prefix_flags(1)[OF at1] room2 by simp
    have f1: "Bins_bitoff D (it_idx it + 1)"
      using prefix_flags(1)[OF at2 u1] by simp
    have at3: "stream_at D (unat (it_idx it) + 2) (bits_of (drop_bit (unat (prevTrailing c)) x) b')"
      using at st by (simp add: stream_at_append)
    have cov: "unat (prevLeading c) \<le> LeadingZeros64 x" "unat (prevTrailing c) \<le> TrailingZeros64 x"
      using True xor_leading_le(1)[of x] by (simp_all add: use_prev_window_def)
    have fit: "take_bit b' (drop_bit (unat (prevTrailing c)) x) = drop_bit (unat (prevTrailing c)) x"
      unfolding b'_def using cov w' by (rule window_fits(1))
    have bk: "push_bit (unat (prevTrailing c)) (drop_bit (unat (prevTrailing c)) x) = x"
      using cov w' by (rule window_fits(2))
    have rd: "readBits D (it_idx it + 2) b' =
        (drop_bit (unat (prevTrailing c)) x, it_idx it + 2 + of_nat b')"
      using readBits_at[OF at3 _ fit room2] by (simp add: b'_def)
    have m: "(64 - unat (prevLeading c) - unat (prevTrailing c)) mod 256 = b'"
      by (simp add: b'_def)
    have m': "(64 - (unat (prevLeading c) + unat (prevTrailing c))) mod 256 = b'"
      by (simp add: b'_def)
    have len: "length (stream (float_fields c x)) = 2 + b'" by (simp add: st)
    have v: "x XOR prevValue c = v" by (simp add: x xor_back)
    show ?thesis
      using f0 f1 w' rd m m' bk v False True
      by (simp add: readFloat_def Let_def BINW_def pl pt pv len add.assoc)
  next
    case F: False
    define l where "l = xor_leading x"
    define t where "t = TrailingZeros64 x"
    define b' where "b' = 64 - l - t"
    have lb: "l \<le> 31" "l + t \<le> 63" "1 \<le> b'" "b' \<le> 64" "l + b' + t = 64"
      using s xor_leading_le(2)[of x] by (simp_all add: l_def t_def b'_def)
    have st: "stream (float_fields c x) =
        bits_of 1 1 @ bits_of 1 1 @ bits_of (of_nat l) 5 @ bits_of (of_nat b' - 1) 6 @
        bits_of (drop_bit t x) b'"
      using False F by (simp add: float_fields_def b'_def l_def t_def)
    have ff: "fits (float_fields c x)" using w' by (rule float_fields_fits)
    then have fit: "take_bit 5 (of_nat l :: u64) = of_nat l"
      "take_bit 6 (of_nat b' - 1 :: u64) = of_nat b' - 1"
      "take_bit b' (drop_bit t x) = drop_bit t x"
      using False F by (simp_all add: float_fields_def b'_def l_def t_def)
    have len: "length (stream (float_fields c x)) = 13 + b'" by (simp add: st)
    have room13: "unat (it_idx it) + 13 < 2 ^ 64" using room len by simp
    have at1: "stream_at D (unat (it_idx it)) (bits_of 1 1 @ (bits_of 1 1 @ bits_of (of_nat l) 5 @
        bits_of (of_nat b' - 1) 6 @ bits_of (drop_bit t x) b'))"
      using at st by simp
    have u1: "unat (it_idx it + 1) = unat (it_idx it) + 1"
      using unat_cursor[of "it_idx it" 1] room13 by simp
    have at2: "stream_at D (unat (it_idx it + 1)) (bits_of 1 1 @ (bits_of (of_nat l) 5 @
        bits_of (of_nat b' - 1) 6 @ bits_of (drop_bit t x) b'))"
      using at1 u1 by (simp add: stream_at_append)
    have f0: "\<not> Bins_bitoff D (it_idx it)"
      using prefix_flags(1)[OF at1] room13 by simp
    have f1: "\<not> Bins_bitoff D (it_idx it + 1)"
      using prefix_flags(1)[OF at2] u1 room13 by simp
    have a5: "stream_at D (unat (it_idx it) + 2) (bits_of (of_nat l) 5)"
      and a6: "stream_at D (unat (it_idx it) + 7) (bits_of (of_nat b' - 1) 6)"
      and ab: "stream_at D (unat (it_idx it) + 13) (bits_of (drop_bit t x) b')"
      using at st by (simp_all add: stream_at_append ac_simps)
    have r5: "readBits D (it_idx it + 2) 5 = (of_nat l, it_idx it + 7)"
      using readBits_at[OF a5 _ fit(1)] room13 by (simp add: add.assoc)
    have r6: "readBits D (it_idx it + 7) 6 = (of_nat b' - 1, it_idx it + 13)"
      using readBits_at[OF a6 _ fit(2)] room13 by (simp add: add.assoc)
    have rb: "readBits D (it_idx it + 13) b' = (drop_bit t x, it_idx it + 13 + of_nat b')"
      using readBits_at[OF ab lb(4) fit(3)] room13 by simp
    have bsz: "(of_nat b' - 1 :: u64) + of_nat DOUBLE_BLOCK_ADJUST = of_nat b'"
      by (simp add: DOUBLE_BLOCK_ADJUST_def)
    have ub: "unat (of_nat b' :: u64) = b'" using lb by (simp add: unat_of_nat_u64)
    have sum: "(of_nat l :: u64) + of_nat b' \<le> of_nat BINW"
    proof -
      have "(of_nat l :: u64) + of_nat b' = of_nat (l + b')" by simp
      moreover have "unat (of_nat (l + b') :: u64) = l + b'"
        by (rule unat_of_nat_u64) (use lb in simp)
      ultimately show ?thesis using lb by (simp add: word_le_nat_alt BINW_def)
    qed
    have "(of_nat (l + b' + t) :: u64) = of_nat 64" by (simp only: lb(5))
    then have e: "(64 :: u64) = of_nat l + of_nat b' + of_nat t" by simp
    have tr: "(of_nat BINW :: u64) - of_nat l - of_nat b' = of_nat t"
      unfolding BINW_def by (simp add: e)
    have ut: "unat (of_nat t :: u64) = t" using lb by (simp add: unat_of_nat_u64)
    have bk: "push_bit t (drop_bit t x) = x"
      using xor_leading_le(1)[of x] lb unfolding l_def t_def
      by (intro window_fits(2)[of "xor_leading x"]) simp_all
    have v: "x XOR prevValue c = v" by (simp add: x xor_back)
    have c8: "(ucast (of_nat l :: u64) :: u8) = of_nat l" "(ucast (of_nat t :: u64) :: u8) = of_nat t"
      using lb by (simp_all add: ucast_of_nat_u8)
    have bm: "b' mod 256 = b'" using lb by simp
    show ?thesis
      using f0 f1 r5 r6 rb bsz ub sum tr ut bk v c8 bm False F
      by (simp add: readFloat_def Let_def pv len add.assoc DOUBLE_LEADING_def DOUBLE_BLOCK_SIZE_def
          l_def[symmetric] t_def[symmetric])
  qed
qed

lemma fields_stream_at:
  assumes "fits fs" and "unat b + length (stream fs) < 2 ^ 64" and "zero_from bs (unat b)"
  shows "stream_at (fst (appendFields bs b fs)) (unat b) (stream fs)"
  unfolding stream_at_def using fields_fresh[OF assms] by simp

lemma stream_at_cong:
  assumes "stream_at B g s" and "\<And>p. g \<le> p \<Longrightarrow> p < g + length s \<Longrightarrow> gbit D p = gbit B p"
  shows "stream_at D g s"
  using assms unfolding stream_at_def by simp

lemma Compressed_Append_OK_cases:
  assumes ca: "Compressed_Append c t v = Some (CR_OK, c')" and ns: "base_numSamples c \<noteq> 0"
  obtains c1 c2 where "appendInteger c t = Some (CR_OK, c1)" "appendFloat c1 v = Some (CR_OK, c2)"
    "c' = c2\<lparr>base_numSamples := base_numSamples c2 + 1\<rparr>"
proof -
  obtain r1 c1 where ai: "appendInteger c t = Some (r1, c1)"
    using ca ns by (auto simp: Compressed_Append_def Let_def split: option.splits)
  have r1: "r1 = CR_OK" using ca ns ai by (auto simp: Compressed_Append_def Let_def split: if_splits)
  obtain r2 c2 where af: "appendFloat c1 v = Some (r2, c2)"
    using ca ns ai r1 by (auto simp: Compressed_Append_def Let_def split: option.splits)
  have r2: "r2 = CR_OK" using ca ns ai r1 af by (auto simp: Compressed_Append_def Let_def split: if_splits)
  have "c' = c2\<lparr>base_numSamples := base_numSamples c2 + 1\<rparr>"
    using ca ns ai r1 af r2 by (simp add: Compressed_Append_def Let_def)
  then show ?thesis using that ai r1 af r2 by simp
qed

lemma append_step:
  assumes inv: "chunk_inv c" and ca: "Compressed_Append c t v = Some (CR_OK, c')"
  shows "chunk_inv c'"
    and "unat (base_numSamples c') = unat (base_numSamples c) + 1"
    and "base_baseTimestamp c' = base_baseTimestamp c"
    and "baseValue c' = baseValue c"
    and "unat (idx c) \<le> unat (idx c')"
    and "\<And>p. p < unat (idx c) \<Longrightarrow> gbit (data c') p = gbit (data c) p"
    and "\<And>cf it. \<lbrakk>\<And>p. p < unat (idx c') \<Longrightarrow> gbit (data cf) p = gbit (data c') p;
            synced c it; it_count it < base_numSamples cf\<rbrakk>
         \<Longrightarrow> \<exists>it'. Compressed_ReadNext cf it = Some (CR_OK, Some (t, v), it') \<and> synced c' it'"
proof -
  have ib: "idx_in_bounds c" and z: "zero_from (data c) (unat (idx c))"
    and w: "unat (prevLeading c) + unat (prevTrailing c) \<le> 64"
    and ns: "base_numSamples c \<noteq> 0" and nb: "unat (base_numSamples c) \<le> unat (idx c) + 1"
    using inv by (simp_all add: chunk_inv_def)
  obtain c1 c2 where ai: "appendInteger c t = Some (CR_OK, c1)"
    and af: "appendFloat c1 v = Some (CR_OK, c2)"
    and c': "c' = c2\<lparr>base_numSamples := base_numSamples c2 + 1\<rparr>"
    using ca ns by (rule Compressed_Append_OK_cases)
  define dd where "dd = t - prevTimestamp c - prevTimestampDelta c"
  define fsI where "fsI = int_fields dd"
  define x where "x = v XOR prevValue c1"
  define fsF where "fsF = float_fields c1 x"
  note i = appendInteger_OK_fields[OF ai ib, folded dd_def, folded fsI_def]
  have fI: "fits fsI" by (simp add: fsI_def int_fields_fits)
  have c1f: "base_size c1 = base_size c" "data c1 = fst (appendFields (data c) (idx c) fsI)"
    "prevValue c1 = prevValue c" "prevLeading c1 = prevLeading c" "prevTrailing c1 = prevTrailing c"
    "base_numSamples c1 = base_numSamples c" "base_baseTimestamp c1 = base_baseTimestamp c"
    "baseValue c1 = baseValue c" "prevTimestamp c1 = t" "prevTimestampDelta c1 = t - prevTimestamp c"
    "idx c1 = idx c + of_nat (length (stream fsI))"
    by (subst i(1), simp)+
  have room1: "unat (idx c1) + 1 \<le> unat (base_size c1 * 8)" using i(2,3) c1f(1) by simp
  note f = appendFloat_OK_fields[OF af room1, folded x_def, folded fsF_def]
  have c2f: "base_size c2 = base_size c1" "data c2 = fst (appendFields (data c1) (idx c1) fsF)"
    "prevValue c2 = v" "base_numSamples c2 = base_numSamples c1"
    "base_baseTimestamp c2 = base_baseTimestamp c1" "baseValue c2 = baseValue c1"
    "prevTimestamp c2 = prevTimestamp c1" "prevTimestampDelta c2 = prevTimestampDelta c1"
    "idx c2 = idx c1 + of_nat (length (stream fsF))"
    "prevLeading c2 = (if x = 0 \<or> use_prev_window c1 x then prevLeading c1 else of_nat (xor_leading x))"
    "prevTrailing c2 = (if x = 0 \<or> use_prev_window c1 x then prevTrailing c1
                        else of_nat (TrailingZeros64 x))"
    by (subst f(3), simp)+
  have ltI: "unat (idx c) + length (stream fsI) < 2 ^ 64"
    using i(3) unat_lt_2p64[of "base_size c * 8"] by linarith
  have ltF: "unat (idx c1) + length (stream fsF) < 2 ^ 64"
    using f(2) unat_lt_2p64[of "base_size c1 * 8"] by linarith
  have z1: "zero_from (data c1) (unat (idx c1))"
    unfolding c1f(2) i(2) using fI ltI z by (rule fields_zero_from)
  have z2: "zero_from (data c2) (unat (idx c2))"
    unfolding c2f(2) f(4) using f(1) ltF z1 by (rule fields_zero_from)
  have lenI: "2 \<le> length (stream fsI) + 1" unfolding fsI_def by (rule int_fields_len_bounds(1))
  have lenF: "1 \<le> length (stream fsF)" unfolding fsF_def by (rule float_fields_nonempty)
  have idx2: "unat (idx c2) = unat (idx c) + length (stream fsI) + length (stream fsF)"
    using f(4) i(2) by simp
  have ib2: "idx_in_bounds c2"
    using f(2,4) c2f(1) by (simp add: idx_in_bounds_def word_le_nat_alt)
  have s: "x \<noteq> 0 \<Longrightarrow> xor_leading x + TrailingZeros64 x \<le> 63" by (rule xor_window_sum)
  have w2: "unat (prevLeading c2) + unat (prevTrailing c2) \<le> 64"
  proof (cases "x = 0 \<or> use_prev_window c1 x")
    case True
    then show ?thesis using w by (simp add: c2f c1f)
  next
    case False
    then have "xor_leading x + TrailingZeros64 x \<le> 63" using s by simp
    moreover have "unat (of_nat (xor_leading x) :: u8) \<le> xor_leading x"
      "unat (of_nat (TrailingZeros64 x) :: u8) \<le> TrailingZeros64 x"
      by (simp_all add: unat_of_nat)
    ultimately show ?thesis using False by (simp add: c2f)
  qed
  have nsu: "unat (base_numSamples c + 1) = unat (base_numSamples c) + 1"
  proof -
    have "unat (base_numSamples c) + 1 < 2 ^ 64"
      using nb idx2 lenI lenF unat_lt_2p64[of "idx c2"] by linarith
    then show ?thesis using unat_cursor[of "base_numSamples c" 1] by simp
  qed
  have ns': "base_numSamples c' = base_numSamples c + 1" by (simp add: c' c2f c1f)
  show n1: "unat (base_numSamples c') = unat (base_numSamples c) + 1" using nsu ns' by simp
  have "base_numSamples c' \<noteq> 0" using n1 by (metis Suc_eq_plus1 nat.distinct(1) unat_0)
  moreover have "unat (base_numSamples c') \<le> unat (idx c') + 1"
    using n1 nb idx2 lenI lenF by (simp add: c')
  ultimately show "chunk_inv c'"
    using ib2 z2 w2 by (simp add: chunk_inv_def c' idx_in_bounds_def)
  show "base_baseTimestamp c' = base_baseTimestamp c" by (simp add: c' c2f c1f)
  show "baseValue c' = baseValue c" by (simp add: c' c2f c1f)
  show "unat (idx c) \<le> unat (idx c')" using idx2 by (simp add: c')
  have low1: "gbit (data c1) p = gbit (data c) p" if "p < unat (idx c)" for p
    unfolding c1f(2) using fI ltI that by (intro fields_frame) simp_all
  have low2: "gbit (data c2) p = gbit (data c1) p" if "p < unat (idx c1)" for p
    unfolding c2f(2) using f(1) ltF that by (intro fields_frame) simp_all
  show "gbit (data c') p = gbit (data c) p" if "p < unat (idx c)" for p
    using low1[OF that] low2[of p] that i(2) by (simp add: c')
  show "\<exists>it'. Compressed_ReadNext cf it = Some (CR_OK, Some (t, v), it') \<and> synced c' it'"
    if same: "\<And>p. p < unat (idx c') \<Longrightarrow> gbit (data cf) p = gbit (data c') p"
      and sy: "synced c it" and cnt: "it_count it < base_numSamples cf" for cf it
  proof -
    have sI: "stream_at (data c1) (unat (idx c)) (stream fsI)"
      unfolding c1f(2) using fI ltI z by (rule fields_stream_at)
    have sF: "stream_at (data c2) (unat (idx c1)) (stream fsF)"
      unfolding c2f(2) using f(1) ltF z1 by (rule fields_stream_at)
    have dI: "stream_at (data cf) (unat (idx c)) (stream fsI)"
    proof (rule stream_at_cong[OF sI])
      fix p assume "unat (idx c) \<le> p" "p < unat (idx c) + length (stream fsI)"
      then have "p < unat (idx c1)" "p < unat (idx c')" using i(2) idx2 by (simp_all add: c')
      then show "gbit (data cf) p = gbit (data c1) p"
        using same[of p] low2[of p] by (simp add: c')
    qed
    have dF: "stream_at (data cf) (unat (idx c1)) (stream fsF)"
    proof (rule stream_at_cong[OF sF])
      fix p assume "unat (idx c1) \<le> p" "p < unat (idx c1) + length (stream fsF)"
      then have "p < unat (idx c')" using f(4) by (simp add: c')
      then show "gbit (data cf) p = gbit (data c2) p" using same[of p] by (simp add: c')
    qed
    have syf: "it_idx it = idx c" "it_prevTS it = prevTimestamp c"
      "it_prevDelta it = prevTimestampDelta c" "it_prevValue it = prevValue c"
      "it_prevLeading it = prevLeading c" "it_prevTrailing it = prevTrailing c"
      "it_count it = base_numSamples c"
      using sy by (simp_all add: synced_def)
    obtain pre plen pay wd where d: "dd_code dd = (pre, plen, pay, wd)" by (metis prod_cases4)
    have stI: "stream fsI = bits_of pre plen @ bits_of pay wd" by (simp add: fsI_def int_fields_def d)
    have "stream_at (data cf) (unat (it_idx it)) (bits_of pre plen @ bits_of pay wd)"
      using dI by (simp add: syf stI)
    moreover have "unat (it_idx it) + plen + wd < 2 ^ 64" using ltI by (simp add: syf stI)
    ultimately have ri: "readInteger (data cf) it =
       (it_prevTS it + (it_prevDelta it + dd),
        it\<lparr>it_idx := it_idx it + of_nat plen + of_nat wd,
           it_prevDelta := it_prevDelta it + dd,
           it_prevTS := it_prevTS it + (it_prevDelta it + dd)\<rparr>)"
      using d by (intro readInteger_decodes)
    have dl: "it_prevDelta it + dd = t - prevTimestamp c" by (simp add: syf dd_def)
    have ts: "it_prevTS it + (t - prevTimestamp c) = t" by (simp add: syf)
    define it2 where "it2 = it\<lparr>it_idx := idx c1, it_prevDelta := t - prevTimestamp c, it_prevTS := t\<rparr>"
    have i1: "it_idx it + of_nat plen + of_nat wd = idx c1"
      by (simp add: syf c1f stI add.assoc)
    have ri': "readInteger (data cf) it = (t, it2)"
      using ri by (simp add: dl ts i1 it2_def)
    have it2f: "it_idx it2 = idx c1" "it_prevValue it2 = prevValue c1"
      "it_prevLeading it2 = prevLeading c1" "it_prevTrailing it2 = prevTrailing c1"
      by (simp_all add: it2_def syf c1f)
    have "stream_at (data cf) (unat (it_idx it2)) (stream (float_fields c1 x))"
      using dF by (simp add: it2f fsF_def)
    moreover have "unat (it_idx it2) + length (stream (float_fields c1 x)) < 2 ^ 64"
      using ltF by (simp add: it2f fsF_def)
    moreover have "x \<noteq> 0 \<Longrightarrow> unat (prevLeading c1) + unat (prevTrailing c1) \<le> 64"
      using w by (simp add: c1f)
    ultimately have rf: "readFloat (data cf) it2 =
       Some (v, it2\<lparr>it_idx := it_idx it2 + of_nat (length (stream (float_fields c1 x))),
                 it_prevValue := v,
                 it_prevLeading := (if x = 0 \<or> use_prev_window c1 x then prevLeading c1
                                    else of_nat (xor_leading x)),
                 it_prevTrailing := (if x = 0 \<or> use_prev_window c1 x then prevTrailing c1
                                     else of_nat (TrailingZeros64 x))\<rparr>)"
      using x_def it2f(2,3,4) by (intro readFloat_decodes)
    define it3 where "it3 = it2\<lparr>it_idx := idx c2, it_prevValue := v,
       it_prevLeading := prevLeading c2, it_prevTrailing := prevTrailing c2\<rparr>"
    have rf': "readFloat (data cf) it2 = Some (v, it3)"
      using rf by (simp add: it3_def it2f c2f fsF_def)
    have c0: "it_count it \<noteq> 0" using ns by (simp add: syf)
    have nge: "\<not> base_numSamples cf \<le> it_count it" using cnt by (simp add: not_le)
    have it2': "it2\<lparr>it_prevTS := t\<rparr> = it2" by (simp add: it2_def)
    have rn: "Compressed_ReadNext cf it =
        Some (CR_OK, Some (t, v), it3\<lparr>it_prevValue := v, it_count := it_count it3 + 1\<rparr>)"
      using nge c0 ri' rf' by (simp add: Compressed_ReadNext_def Let_def it2')
    have "synced c' (it3\<lparr>it_prevValue := v, it_count := it_count it3 + 1\<rparr>)"
      by (simp add: synced_def it3_def it2_def c' c2f c1f syf)
    then show ?thesis using rn by blast
  qed
qed

lemma append_all_Cons_Some:
  assumes "append_all c ((t, v) # rest) = Some cf"
  obtains c' where "Compressed_Append c t v = Some (CR_OK, c')" "append_all c' rest = Some cf"
  using assms by (auto split: option.splits ChunkResult.splits)

lemma append_all_preserves:
  assumes "chunk_inv c" and "append_all c rest = Some cf"
  shows "chunk_inv cf \<and> unat (idx c) \<le> unat (idx cf) \<and>
         (\<forall>p<unat (idx c). gbit (data cf) p = gbit (data c) p) \<and>
         base_baseTimestamp cf = base_baseTimestamp c \<and> baseValue cf = baseValue c \<and>
         unat (base_numSamples cf) = unat (base_numSamples c) + length rest"
  using assms
proof (induction rest arbitrary: c)
  case Nil
  then show ?case by simp
next
  case (Cons s rest)
  obtain t v where s: "s = (t, v)" by (cases s)
  obtain c' where ca: "Compressed_Append c t v = Some (CR_OK, c')"
    and rest: "append_all c' rest = Some cf"
    using Cons.prems(2) unfolding s by (rule append_all_Cons_Some)
  note st = append_step[OF Cons.prems(1) ca]
  note ih = Cons.IH[OF st(1) rest]
  have "gbit (data cf) p = gbit (data c) p" if "p < unat (idx c)" for p
  proof -
    have "p < unat (idx c')" using that st(5) by simp
    then have "gbit (data cf) p = gbit (data c') p" using ih by blast
    then show ?thesis using st(6)[OF that] by simp
  qed
  then show ?case using ih st(2,3,4,5) by simp
qed

lemma read_n_decodes:
  assumes "chunk_inv c" and "append_all c rest = Some cf" and "synced c it"
  shows "\<exists>it'. read_n cf it (length rest) = Some (rest, it') \<and> synced cf it'"
  using assms
proof (induction rest arbitrary: c it)
  case Nil
  then show ?case by simp
next
  case (Cons s rest)
  obtain t v where s: "s = (t, v)" by (cases s)
  obtain c' where ca: "Compressed_Append c t v = Some (CR_OK, c')"
    and rest: "append_all c' rest = Some cf"
    using Cons.prems(2) unfolding s by (rule append_all_Cons_Some)
  note st = append_step[OF Cons.prems(1) ca]
  note pr = append_all_preserves[OF st(1) rest]
  have same: "gbit (data cf) p = gbit (data c') p" if "p < unat (idx c')" for p
    using pr that by blast
  have "unat (it_count it) < unat (base_numSamples cf)"
    using pr st(2) Cons.prems(3) by (simp add: synced_def)
  then have cnt: "it_count it < base_numSamples cf" by (simp add: word_less_nat_alt)
  obtain it1 where rn: "Compressed_ReadNext cf it = Some (CR_OK, Some (t, v), it1)"
    and sy1: "synced c' it1"
    using st(7)[OF same Cons.prems(3) cnt] by blast
  obtain it' where rd: "read_n cf it1 (length rest) = Some (rest, it')" and sy': "synced cf it'"
    using Cons.IH[OF st(1) rest sy1] by blast
  show ?case using rn rd sy' by (simp add: s)
qed

text \<open>
  C1. Let every call of \<^verbatim>\<open>Compressed_Append\<close> for a list of samples, on a zero-initialized
  chunk of any capacity, return \<^verbatim>\<open>CR_OK\<close> (so no assertion failed: the timestamps do not
  decrease). Then reading from a new iterator returns \<^verbatim>\<open>CR_OK\<close> once per sample and gives
  the samples back in order, timestamps and values as the same 64-bit words (a value is the
  bit pattern of its double, so NaN payloads and the sign of zero are kept), and the next
  call returns \<^verbatim>\<open>CR_END\<close>. The new iterator has \<open>prevTS\<close> and \<open>prevValue\<close> from the chunk's base
  sample and the window \<open>(0, 0)\<close> of the zero-initialized encoder: \<^verbatim>\<open>Compressed_ReadNext\<close>
  does not set them.
\<close>

theorem C1_round_trip:
  assumes "append_all (zero_chunk C) samples = Some chunk"
  shows "\<exists>it. read_n chunk (Compressed_NewChunkIterator chunk) (length samples) = Some (samples, it) \<and>
              Compressed_ReadNext chunk it = Some (CR_END, None, it)"
proof (cases samples)
  case Nil
  then have "chunk = zero_chunk C" using assms by simp
  then show ?thesis using Nil
    by (simp add: Compressed_ReadNext_def Compressed_NewChunkIterator_def zero_chunk_def)
next
  case (Cons s rest)
  obtain t v where s: "s = (t, v)" by (cases s)
  obtain c1 where ca: "Compressed_Append (zero_chunk C) t v = Some (CR_OK, c1)"
    and rest: "append_all c1 rest = Some chunk"
    using assms unfolding Cons s by (rule append_all_Cons_Some)
  have c1: "c1 = (zero_chunk C)\<lparr>baseValue := v, prevValue := v, base_baseTimestamp := t,
      prevTimestamp := t, prevTimestampDelta := 0, base_numSamples := 1\<rparr>"
    using ca by (simp add: Compressed_Append_def zero_chunk_def)
  have inv: "chunk_inv c1"
    by (simp add: c1 chunk_inv_def idx_in_bounds_def zero_from_def zero_chunk_def gbit_def)
  note pr = append_all_preserves[OF inv rest]
  define it0 where "it0 = Compressed_NewChunkIterator chunk"
  define it1 where "it1 = it0\<lparr>it_count := 1\<rparr>"
  have base: "base_baseTimestamp chunk = t" "baseValue chunk = v"
    using pr by (simp_all add: c1)
  have nz: "base_numSamples chunk \<noteq> 0"
    using pr by (simp add: chunk_inv_def)
  then have "\<not> base_numSamples chunk \<le> 0" by (simp add: word_le_0_iff)
  then have r0: "Compressed_ReadNext chunk it0 = Some (CR_OK, Some (t, v), it1)"
    by (simp add: Compressed_ReadNext_def it0_def it1_def Compressed_NewChunkIterator_def base)
  have sy: "synced c1 it1"
    by (simp add: synced_def it1_def it0_def Compressed_NewChunkIterator_def base c1 zero_chunk_def)
  obtain it' where rd: "read_n chunk it1 (length rest) = Some (rest, it')" and sy': "synced chunk it'"
    using read_n_decodes[OF inv rest sy] by blast
  have "read_n chunk it0 (length samples) = Some (samples, it')"
    using r0 rd by (simp add: Cons s)
  moreover have "Compressed_ReadNext chunk it' = Some (CR_END, None, it')"
    using sy' by (simp add: Compressed_ReadNext_def synced_def)
  ultimately show ?thesis unfolding it0_def by blast
qed

lemma S2_chunk_appended: "append_all (zero_chunk 128) S2_samples = Some S2_chunk"
  by (simp add: S2_samples_def S2_chunk_def eval_defs word_sle_eq fun_eq_iff)

text \<open>The theorem of C1 at the three samples \<open>(1000, 5.0)\<close>, \<open>(1010, 5.0)\<close>, \<open>(1020, 5.0)\<close>.\<close>

theorem C1_witness:
  "append_all (zero_chunk 128) S2_samples = Some S2_chunk \<and>
   (\<exists>it. read_n S2_chunk (Compressed_NewChunkIterator S2_chunk) (length S2_samples)
            = Some (S2_samples, it) \<and>
         Compressed_ReadNext S2_chunk it = Some (CR_END, None, it))"
  using S2_chunk_appended C1_round_trip[OF S2_chunk_appended] by blast

end
